theory Spec2Isabelle
  imports Complex_Main
begin

section \<open>Python values shared by the components\<close>

text \<open>
  Exceptions of \<^verbatim>\<open>src/utils/exceptions.py\<close> and the built-in ones the modelled code can
  raise. Every class derives from Python's \<^verbatim>\<open>Exception\<close>, so a handler
  \<^verbatim>\<open>except Exception\<close> catches each of them. The string is the message; where the
  source formats the message from another exception only the fixed prefix is kept.
\<close>

datatype exn =
    PolicyPilotException string
  | DocumentProcessingError string
  | EmbeddingServiceError string
  | ValidationError string
  | TypeError string
  | ValueError string
  | ZeroDivisionError string
  | AttributeError string
  | OtherException string

text \<open>
  A Python callable with side effects is a transformer of an explicit world \<open>'w\<close>: it
  returns either the exception it raised or its value, and the world after the call.
\<close>

type_synonym ('w, 'a) callable = "'w \<Rightarrow> (exn + 'a) \<times> 'w"

section \<open>Strings\<close>

text \<open>
  A \<^typ>\<open>string\<close> stands for a Python \<^verbatim>\<open>str\<close> whose code points are below 256, one
  \<^typ>\<open>char\<close> per code point. \<open>isspace\<close> is \<^verbatim>\<open>str.isspace\<close> on that range, which is
  also what \<^verbatim>\<open>\s\<close> matches in a \<^verbatim>\<open>str\<close> pattern and what \<^verbatim>\<open>strip()\<close> and \<^verbatim>\<open>split()\<close>
  remove.
\<close>

definition isspace :: "char \<Rightarrow> bool" where
  "isspace c =
     (let n = (of_char c :: nat)
      in (9 \<le> n \<and> n \<le> 13) \<or> (28 \<le> n \<and> n \<le> 32) \<or> n = 133 \<or> n = 160)"

definition isdigit :: "char \<Rightarrow> bool" where
  "isdigit c = (let n = (of_char c :: nat) in 48 \<le> n \<and> n \<le> 57)"

definition strip :: "string \<Rightarrow> string" where
  "strip s = rev (dropWhile isspace (rev (dropWhile isspace s)))"

text \<open>\<^verbatim>\<open>s.split()\<close>: the maximal runs of non-whitespace, \<open>w\<close> being the run in progress.\<close>

fun split_acc :: "string \<Rightarrow> string \<Rightarrow> string list" where
  "split_acc w [] = (if w = [] then [] else [w])"
| "split_acc w (c # cs) =
     (if isspace c then (if w = [] then split_acc [] cs else w # split_acc [] cs)
      else split_acc (w @ [c]) cs)"

definition split_ws :: "string \<Rightarrow> string list" where
  "split_ws s = split_acc [] s"

text \<open>\<^verbatim>\<open>sep.join(parts)\<close>.\<close>

fun join :: "string \<Rightarrow> string list \<Rightarrow> string" where
  "join sep [] = []"
| "join sep [x] = x"
| "join sep (x # y # ys) = x @ sep @ join sep (y # ys)"

text \<open>
  \<^verbatim>\<open>s[i:j]\<close> with Python's treatment of indices: a negative index counts from the end,
  and both are clamped to the string.
\<close>

definition slice_index :: "int \<Rightarrow> int \<Rightarrow> int" where
  "slice_index n i = (if i < 0 then max 0 (n + i) else min i n)"

definition slice :: "'a list \<Rightarrow> int \<Rightarrow> int \<Rightarrow> 'a list" where
  "slice s i j =
     (let n = int (length s); a = slice_index n i; b = slice_index n j
      in take (nat (b - a)) (drop (nat a) s))"

definition slice_from :: "'a list \<Rightarrow> int \<Rightarrow> 'a list" where
  "slice_from s i = drop (nat (slice_index (int (length s)) i)) s"

text \<open>\<^verbatim>\<open>str(n)\<close> for a non-negative integer.\<close>

definition digit_char :: "nat \<Rightarrow> char" where
  "digit_char d = char_of (48 + d)"

fun str_nat :: "nat \<Rightarrow> string" where
  "str_nat n = (if n < 10 then [digit_char n] else str_nat (n div 10) @ [digit_char (n mod 10)])"

declare str_nat.simps [simp del]

text \<open>\<^verbatim>\<open>int(ds)\<close> for a string of decimal digits, \<open>acc\<close> being the value read so far.\<close>

fun int_of_digits :: "nat \<Rightarrow> string \<Rightarrow> nat" where
  "int_of_digits acc [] = acc"
| "int_of_digits acc (c # cs) = int_of_digits (10 * acc + ((of_char c :: nat) - 48)) cs"

section \<open>Text chunker (\<^verbatim>\<open>src/utils/text_processing.py\<close>)\<close>

subsection \<open>The two regular expressions\<close>

text \<open>
  \<^verbatim>\<open>sentence_endings = re.compile(r'[.!?]+\s+')\<close>. Anchored at the head of \<open>s\<close> the pattern
  matches iff the maximal run of terminators is non-empty and followed by whitespace (a
  shorter run of terminators is followed by a terminator, so backtracking finds nothing
  more); the match then takes the whole run of whitespace. The result is the length of
  the match.
\<close>

definition is_sentence_end :: "char \<Rightarrow> bool" where
  "is_sentence_end c = (c = CHR ''.'' \<or> c = CHR ''!'' \<or> c = CHR ''?'')"

definition match_sentence_ending :: "string \<Rightarrow> nat option" where
  "match_sentence_ending s =
     (let p = takeWhile is_sentence_end s;
          w = takeWhile isspace (dropWhile is_sentence_end s)
      in if p \<noteq> [] \<and> w \<noteq> [] then Some (length p + length w) else None)"

text \<open>
  \<^verbatim>\<open>[m.end() for m in sentence_endings.finditer(s)]\<close>: the scan goes left to right, takes
  the match at the first position that has one and resumes behind it; \<open>pos\<close> is the
  offset of \<open>s\<close> in the searched string.
\<close>

function finditer_ends :: "nat \<Rightarrow> string \<Rightarrow> nat list" where
  "finditer_ends pos s =
     (if s = [] then []
      else case match_sentence_ending s of
             Some k \<Rightarrow> (pos + k) # finditer_ends (pos + k) (drop k s)
           | None \<Rightarrow> finditer_ends (pos + 1) (tl s))"
  by pat_completeness auto
termination
  by (relation "measure (\<lambda>(pos, s). length s)")
     (auto simp: match_sentence_ending_def Let_def split: if_splits)

declare finditer_ends.simps [simp del]

text \<open>
  \<^verbatim>\<open>re.search(r'Page (\d+):', text)\<close>, returning \<^verbatim>\<open>int(group(1))\<close> of the leftmost match.
\<close>

definition match_page :: "string \<Rightarrow> nat option" where
  "match_page s =
     (let ds = takeWhile isdigit (drop 5 s); r = dropWhile isdigit (drop 5 s)
      in if take 5 s = ''Page '' \<and> ds \<noteq> [] \<and> take 1 r = '':''
         then Some (int_of_digits 0 ds) else None)"

fun search_page :: "string \<Rightarrow> nat option" where
  "search_page [] = None"
| "search_page (c # cs) =
     (case match_page (c # cs) of Some p \<Rightarrow> Some p | None \<Rightarrow> search_page cs)"

subsection \<open>Chunks\<close>

record chunk_metadata =
  chunk_index :: nat
  start_position :: "int option"
  end_position :: "int option"
  md_word_count :: nat
  md_char_count :: nat
  file_type :: string
  extraction_method :: string
  md_page_number :: "nat option"
  document_title :: string
  document_author :: string
  document_created :: string
  document_modified :: string

record chunk =
  chunk_id :: string
  content :: string
  metadata :: chunk_metadata
  word_count :: nat
  char_count :: nat
  page_number :: "nat option"

text \<open>\<^verbatim>\<open>metadata.get(key, '')\<close> on the document's metadata dictionary.\<close>

definition get_or_empty :: "(string \<rightharpoonup> string) \<Rightarrow> string \<Rightarrow> string" where
  "get_or_empty md k = (case md k of None \<Rightarrow> [] | Some v \<Rightarrow> v)"

text \<open>
  \<^verbatim>\<open>TextChunker._create_single_chunk\<close>. The argument \<open>uuid_hex\<close> is the value of
  \<^verbatim>\<open>uuid4().hex[:8]\<close> drawn by this call: eight hexadecimal digits of a fresh random UUID.
\<close>

definition create_single_chunk ::
  "string \<Rightarrow> string \<Rightarrow> nat \<Rightarrow> (string \<rightharpoonup> string) \<Rightarrow> int option \<Rightarrow> int option \<Rightarrow> string \<Rightarrow> chunk"
where
  "create_single_chunk text document_id idx md start_pos end_pos uuid_hex =
     (let cid = document_id @ ''_chunk_'' @ str_nat idx @ ''_'' @ uuid_hex;
          wc = length (split_ws text);
          cc = length text;
          page = (if md ''file_type'' = Some ''pdf'' then search_page text else None)
      in \<lparr> chunk_id = cid,
           content = strip text,
           metadata = \<lparr> chunk_index = idx,
                        start_position = start_pos,
                        end_position = end_pos,
                        md_word_count = wc,
                        md_char_count = cc,
                        file_type = get_or_empty md ''file_type'',
                        extraction_method = get_or_empty md ''extraction_method'',
                        md_page_number = page,
                        document_title = get_or_empty md ''title'',
                        document_author = get_or_empty md ''author'',
                        document_created = get_or_empty md ''created'',
                        document_modified = get_or_empty md ''modified'' \<rparr>,
           word_count = wc,
           char_count = cc,
           page_number = page \<rparr>)"

text \<open>
  \<^verbatim>\<open>TextChunker._break_at_sentence_boundary\<close>. \<^verbatim>\<open>int(len(chunk_text) * 0.8)\<close> is
  \<open>4 * len div 5\<close> for every length a string can have (the double nearest to the
  product truncates to that integer).
\<close>

definition break_at_sentence_boundary :: "string \<Rightarrow> string \<Rightarrow> int \<Rightarrow> int \<Rightarrow> string" where
  "break_at_sentence_boundary chunk_text full_text start end =
     (let search_start = max 0 ((4 * length chunk_text) div 5);
          search_text = drop search_start chunk_text;
          matches = finditer_ends 0 search_text
      in if matches \<noteq> []
         then (let new_end = start + int search_start + int (last matches)
               in slice full_text start new_end)
         else chunk_text)"

text \<open>
  The \<^verbatim>\<open>while start < text_length\<close> loop of \<^verbatim>\<open>TextChunker._create_chunks\<close>, with the
  chunker's \<open>chunk_size\<close> and \<open>chunk_overlap\<close>. \<open>uuids k\<close> is the \<open>k\<close>-th value of
  \<^verbatim>\<open>uuid4().hex[:8]\<close> drawn during the call; each chunk draws once, so chunk \<open>k\<close> gets
  draw \<open>k\<close>. The result is the list of chunks with the values of \<open>start\<close> and
  \<open>chunk_index\<close> on leaving the loop; \<open>None\<close> stands for a loop that never ends.
\<close>

partial_function (option) chunk_loop ::
  "int \<Rightarrow> int \<Rightarrow> (nat \<Rightarrow> string) \<Rightarrow> string \<Rightarrow> string \<Rightarrow> (string \<rightharpoonup> string) \<Rightarrow>
   int \<Rightarrow> nat \<Rightarrow> chunk list \<Rightarrow> (chunk list \<times> int \<times> nat) option"
where
  "chunk_loop chunk_size chunk_overlap uuids text document_id md start idx chunks =
     (let text_length = int (length text) in
      if start < text_length then
        (let end = min (start + chunk_size) text_length;
             chunk_text0 = slice text start end;
             chunk_text = (if end < text_length
                           then break_at_sentence_boundary chunk_text0 text start end
                           else chunk_text0);
             c = create_single_chunk chunk_text document_id idx md (Some start) (Some end)
                   (uuids idx);
             chunks' = chunks @ [c];
             start' = end - chunk_overlap;
             idx' = idx + 1
         in if start' \<ge> text_length - chunk_overlap
            then Some (chunks', start', idx')
            else chunk_loop chunk_size chunk_overlap uuids text document_id md start' idx' chunks')
      else Some (chunks, start, idx))"

declare chunk_loop.simps [code]

text \<open>\<^verbatim>\<open>TextChunker._create_chunks\<close>; \<^verbatim>\<open>chunk_document\<close> returns its result unchanged.\<close>

definition create_chunks ::
  "int \<Rightarrow> int \<Rightarrow> (nat \<Rightarrow> string) \<Rightarrow> string \<Rightarrow> string \<Rightarrow> (string \<rightharpoonup> string) \<Rightarrow> chunk list option"
where
  "create_chunks chunk_size chunk_overlap uuids text document_id md =
     (let text_length = int (length text) in
      if text_length \<le> chunk_size
      then Some [create_single_chunk text document_id 0 md None None (uuids 0)]
      else case chunk_loop chunk_size chunk_overlap uuids text document_id md 0 0 [] of
             None \<Rightarrow> None
           | Some (chunks, start, idx) \<Rightarrow>
               if start < text_length
               then (let remaining_text = slice_from text start
                     in if length (strip remaining_text) > 0
                        then Some (chunks @ [create_single_chunk remaining_text document_id idx md
                                               (Some start) (Some text_length) (uuids idx)])
                        else Some chunks)
               else Some chunks)"

text \<open>
  \<^verbatim>\<open>TextChunker.__init__\<close>. An argument that is \<^verbatim>\<open>None\<close> or 0 is replaced by the value
  from the settings (\<^verbatim>\<open>chunk_size or settings.chunk_size\<close>; the settings default to 1000
  and 200). The configuration is accepted only when \<open>chunk_size > 0\<close> and
  \<open>0 \<le> chunk_overlap < chunk_size\<close>; anything else raises \<^verbatim>\<open>ValidationError\<close>. The result
  is the pair of \<open>chunk_size\<close> and \<open>chunk_overlap\<close> the chunker works with.
\<close>

definition or_setting :: "int option \<Rightarrow> int \<Rightarrow> int" where
  "or_setting arg setting = (case arg of None \<Rightarrow> setting | Some a \<Rightarrow> if a = 0 then setting else a)"

definition TextChunker_init :: "int \<Rightarrow> int \<Rightarrow> int option \<Rightarrow> int option \<Rightarrow> exn + (int \<times> int)" where
  "TextChunker_init settings_chunk_size settings_chunk_overlap chunk_size_arg chunk_overlap_arg =
     (let chunk_size = or_setting chunk_size_arg settings_chunk_size;
          chunk_overlap = or_setting chunk_overlap_arg settings_chunk_overlap
      in if chunk_size \<le> 0 then Inl (ValidationError ''Chunk size must be positive'')
         else if chunk_overlap < 0
              then Inl (ValidationError ''Chunk overlap must be non-negative'')
         else if chunk_overlap \<ge> chunk_size
              then Inl (ValidationError ''Chunk overlap must be less than chunk size'')
         else Inr (chunk_size, chunk_overlap))"

text \<open>
  What a chunk holds of the combined text: the half-open span from its start position
  (0 for the single chunk of a short text) over the \<open>char_count\<close> characters of its
  text before stripping.
\<close>

definition chunk_span :: "chunk \<Rightarrow> int \<times> int" where
  "chunk_span c =
     (let s = (case start_position (metadata c) of None \<Rightarrow> 0 | Some p \<Rightarrow> p)
      in (s, s + int (char_count c)))"

text \<open>Position \<open>p\<close> of the combined text lies in the span of one of the chunks.\<close>

definition covered :: "chunk list \<Rightarrow> int \<Rightarrow> bool" where
  "covered chunks p = (\<exists>c\<in>set chunks. fst (chunk_span c) \<le> p \<and> p < snd (chunk_span c))"

text \<open>Everything of a chunk but its identifier.\<close>

definition erase_id :: "chunk \<Rightarrow> chunk" where
  "erase_id c = c\<lparr>chunk_id := []\<rparr>"

text \<open>
  The identifier \<^verbatim>\<open>_create_single_chunk\<close> gives a chunk of the document when the
  suffixes drawn are \<open>uuids\<close>.
\<close>

definition id_of :: "string \<Rightarrow> (nat \<Rightarrow> string) \<Rightarrow> chunk \<Rightarrow> string" where
  "id_of document_id uuids c =
     document_id @ ''_chunk_'' @ str_nat (chunk_index (metadata c)) @ ''_''
       @ uuids (chunk_index (metadata c))"

section \<open>Resilience (\<^verbatim>\<open>src/utils/resilience.py\<close>)\<close>

datatype CircuitState = CLOSED | OPEN | HALF_OPEN

record RetryConfig =
  max_attempts :: int
  base_delay :: real
  max_delay :: real
  exponential_base :: real
  jitter :: bool

record CircuitBreakerConfig =
  failure_threshold :: int
  recovery_timeout :: real
  success_threshold :: int
  timeout :: real

definition default_RetryConfig :: RetryConfig where
  "default_RetryConfig =
     \<lparr> max_attempts = 3, base_delay = 1, max_delay = 60, exponential_base = 2, jitter = True \<rparr>"

definition default_CircuitBreakerConfig :: CircuitBreakerConfig where
  "default_CircuitBreakerConfig =
     \<lparr> failure_threshold = 5, recovery_timeout = 60, success_threshold = 3, timeout = 30 \<rparr>"

subsection \<open>Retry handler\<close>

text \<open>
  What the retry handler uses of its surroundings. \<open>func_name\<close> is the attribute
  \<^verbatim>\<open>func.__name__\<close> of the callable, \<open>None\<close> for a callable that has none (a
  \<^verbatim>\<open>functools.partial\<close> object): each of the three log lines of \<^verbatim>\<open>retry\<close> formats it,
  and reading it on such a callable raises \<^verbatim>\<open>AttributeError\<close>.
  \<open>calculate_delay attempt\<close> is \<^verbatim>\<open>self._calculate_delay(attempt)\<close>, float arithmetic
  with a random jitter: a callable on the world that returns the delay or raises (a float
  power out of range raises \<^verbatim>\<open>OverflowError\<close>). \<open>sleep delay\<close> is
  \<^verbatim>\<open>time.sleep(delay)\<close>, which raises \<^verbatim>\<open>ValueError\<close> for a negative delay.
\<close>

definition no_name_error :: exn where
  "no_name_error = AttributeError ''object has no attribute __name__''"

text \<open>
  The \<^verbatim>\<open>for attempt in range(max_attempts)\<close> loop of \<^verbatim>\<open>RetryHandler.retry\<close>: \<open>n\<close>
  iterations remain, \<open>attempt\<close> is the loop variable and \<open>last_exception\<close> the variable
  of that name. The test \<^verbatim>\<open>attempt == max_attempts - 1\<close> holds exactly in the last
  iteration, when \<open>n = 0\<close> iterations remain after it. In the \<^verbatim>\<open>try\<close> block the debug
  line reads the name before the function is invoked, and what it raises goes to the
  handler like an exception of the function; an exception raised inside the handler (by
  the log lines, the delay or the sleep) leaves \<^verbatim>\<open>retry\<close>.
\<close>

fun retry_loop ::
  "(nat \<Rightarrow> ('w, real) callable) \<Rightarrow> (real \<Rightarrow> ('w, unit) callable) \<Rightarrow> string option \<Rightarrow>
   ('w, 'a) callable \<Rightarrow> nat \<Rightarrow> nat \<Rightarrow> exn option \<Rightarrow> 'w \<Rightarrow> (exn + 'a) \<times> 'w"
where
  "retry_loop calculate_delay sleep func_name func 0 attempt last_exception w =
     (case last_exception of
        None \<Rightarrow> (Inl (TypeError ''exceptions must derive from BaseException''), w)
      | Some e \<Rightarrow> (Inl e, w))"
| "retry_loop calculate_delay sleep func_name func (Suc n) attempt last_exception w =
     (case (case func_name of None \<Rightarrow> (Inl no_name_error, w) | Some name \<Rightarrow> func w) of
        (Inr result, w1) \<Rightarrow> (Inr result, w1)
      | (Inl e, w1) \<Rightarrow>
          if n = 0 then
            (case func_name of None \<Rightarrow> (Inl no_name_error, w1) | Some name \<Rightarrow> (Inl e, w1))
          else
            (case calculate_delay attempt w1 of
               (Inl delay_error, w2) \<Rightarrow> (Inl delay_error, w2)
             | (Inr delay, w2) \<Rightarrow>
                 (case func_name of
                    None \<Rightarrow> (Inl no_name_error, w2)
                  | Some name \<Rightarrow>
                      (case sleep delay w2 of
                         (Inl sleep_error, w3) \<Rightarrow> (Inl sleep_error, w3)
                       | (Inr u, w3) \<Rightarrow>
                           retry_loop calculate_delay sleep func_name func n (attempt + 1)
                             (Some e) w3))))"

definition retry ::
  "RetryConfig \<Rightarrow> (nat \<Rightarrow> ('w, real) callable) \<Rightarrow> (real \<Rightarrow> ('w, unit) callable) \<Rightarrow> string option \<Rightarrow>
   ('w, 'a) callable \<Rightarrow> 'w \<Rightarrow> (exn + 'a) \<times> 'w"
where
  "retry config calculate_delay sleep func_name func w =
     retry_loop calculate_delay sleep func_name func (nat (max_attempts config)) 0 None w"

subsection \<open>Circuit breaker\<close>

record CircuitBreaker =
  config :: CircuitBreakerConfig
  state :: CircuitState
  failure_count :: int
  success_count :: int
  last_failure_time :: real

definition CircuitBreaker_init :: "CircuitBreakerConfig option \<Rightarrow> CircuitBreaker" where
  "CircuitBreaker_init cfg =
     \<lparr> config = (case cfg of None \<Rightarrow> default_CircuitBreakerConfig | Some c \<Rightarrow> c),
       state = CLOSED, failure_count = 0, success_count = 0, last_failure_time = 0 \<rparr>"

text \<open>\<open>now\<close> is the value of \<^verbatim>\<open>time.time()\<close> read by the method.\<close>

definition should_attempt_reset :: "real \<Rightarrow> CircuitBreaker \<Rightarrow> bool" where
  "should_attempt_reset now cb = (now - last_failure_time cb \<ge> recovery_timeout (config cb))"

definition on_success :: "CircuitBreaker \<Rightarrow> CircuitBreaker" where
  "on_success cb =
     (if state cb = HALF_OPEN then
        (let cb1 = cb\<lparr>success_count := success_count cb + 1\<rparr>
         in if success_count cb1 \<ge> success_threshold (config cb1)
            then cb1\<lparr>state := CLOSED, failure_count := 0, success_count := 0\<rparr>
            else cb1)
      else if state cb = CLOSED then cb\<lparr>failure_count := 0\<rparr>
      else cb)"

definition on_failure :: "real \<Rightarrow> CircuitBreaker \<Rightarrow> CircuitBreaker" where
  "on_failure now cb =
     (let cb1 = cb\<lparr>failure_count := failure_count cb + 1, last_failure_time := now\<rparr>
      in if state cb1 = HALF_OPEN then cb1\<lparr>state := OPEN\<rparr>
         else if state cb1 = CLOSED \<and> failure_count cb1 \<ge> failure_threshold (config cb1)
              then cb1\<lparr>state := OPEN\<rparr>
         else cb1)"

text \<open>
  \<^verbatim>\<open>CircuitBreaker.call\<close>. \<open>clock\<close> reads \<^verbatim>\<open>time.time()\<close> off the world; the wrapped
  function changes the world, so a result with the world unchanged is a call that did
  not invoke it.
\<close>

definition call ::
  "('w \<Rightarrow> real) \<Rightarrow> ('w, 'a) callable \<Rightarrow> CircuitBreaker \<Rightarrow> 'w \<Rightarrow> (exn + 'a) \<times> CircuitBreaker \<times> 'w"
where
  "call clock func cb w =
     (if state cb = OPEN \<and> \<not> should_attempt_reset (clock w) cb
      then (Inl (PolicyPilotException ''Circuit breaker is OPEN''), cb, w)
      else
        (let cb1 = (if state cb = OPEN then cb\<lparr>state := HALF_OPEN\<rparr> else cb)
         in case func w of
              (Inr result, w') \<Rightarrow> (Inr result, on_success cb1, w')
            | (Inl e, w') \<Rightarrow> (Inl e, on_failure (clock w') cb1, w')))"

subsection \<open>Resilience manager\<close>

record ResilienceManager =
  retry_handlers :: "string \<rightharpoonup> RetryConfig"
  circuit_breakers :: "string \<rightharpoonup> CircuitBreaker"

definition ResilienceManager_init :: ResilienceManager where
  "ResilienceManager_init = \<lparr> retry_handlers = Map.empty, circuit_breakers = Map.empty \<rparr>"

definition get_retry_handler ::
  "ResilienceManager \<Rightarrow> string \<Rightarrow> RetryConfig option \<Rightarrow> RetryConfig \<times> ResilienceManager"
where
  "get_retry_handler m service_name cfg =
     (case retry_handlers m service_name of
        Some h \<Rightarrow> (h, m)
      | None \<Rightarrow>
          (let h = (case cfg of None \<Rightarrow> default_RetryConfig | Some c \<Rightarrow> c)
           in (h, m\<lparr>retry_handlers := (retry_handlers m)(service_name \<mapsto> h)\<rparr>)))"

definition get_circuit_breaker ::
  "ResilienceManager \<Rightarrow> string \<Rightarrow> CircuitBreakerConfig option \<Rightarrow> CircuitBreaker \<times> ResilienceManager"
where
  "get_circuit_breaker m service_name cfg =
     (case circuit_breakers m service_name of
        Some cb \<Rightarrow> (cb, m)
      | None \<Rightarrow>
          (let cb = CircuitBreaker_init cfg
           in (cb, m\<lparr>circuit_breakers := (circuit_breakers m)(service_name \<mapsto> cb)\<rparr>)))"

text \<open>
  \<^verbatim>\<open>ResilienceManager.resilient_call\<close>. The breaker is an object held in the manager's
  dictionary, so what \<^verbatim>\<open>call\<close> does to it is written back under the service's name. The
  handler \<^verbatim>\<open>except Exception\<close> receives whatever \<^verbatim>\<open>call\<close> raised.
\<close>

definition resilient_call ::
  "('w \<Rightarrow> real) \<Rightarrow> (nat \<Rightarrow> ('w, real) callable) \<Rightarrow> (real \<Rightarrow> ('w, unit) callable) \<Rightarrow>
   ResilienceManager \<Rightarrow> string \<Rightarrow> string option \<Rightarrow> ('w, 'a) callable \<Rightarrow> 'w \<Rightarrow>
   (exn + 'a) \<times> ResilienceManager \<times> 'w"
where
  "resilient_call clock calculate_delay sleep m service_name func_name func w =
     (let (cb, m1) = get_circuit_breaker m service_name None
      in case call clock func cb w of
           (Inr result, cb', w') \<Rightarrow>
             (Inr result, m1\<lparr>circuit_breakers := (circuit_breakers m1)(service_name \<mapsto> cb')\<rparr>, w')
         | (Inl e, cb', w') \<Rightarrow>
             (let m2 = m1\<lparr>circuit_breakers := (circuit_breakers m1)(service_name \<mapsto> cb')\<rparr>;
                  (retry_handler, m3) = get_retry_handler m2 service_name None
              in case retry retry_handler calculate_delay sleep func_name func w' of
                   (Inr result, w'') \<Rightarrow> (Inr result, m3, w'')
                 | (Inl retry_error, w'') \<Rightarrow> (Inl retry_error, m3, w'')))"

section \<open>Rate limiter (\<^verbatim>\<open>src/api/rate_limiter.py\<close>)\<close>

text \<open>
  Times and token counts are Python floats; they are modelled as reals, which agrees with
  the float arithmetic wherever the values involved are exactly representable.
\<close>

record bucket =
  tokens :: real
  last_refill :: real

record RateLimiter =
  requests_per_minute :: int
  burst_size :: int
  tokens_per_second :: real
  buckets :: "string \<rightharpoonup> bucket"

definition RateLimiter_init :: "int \<Rightarrow> int \<Rightarrow> RateLimiter" where
  "RateLimiter_init rpm burst =
     \<lparr> requests_per_minute = rpm, burst_size = burst,
       tokens_per_second = real_of_int rpm / 60, buckets = Map.empty \<rparr>"

text \<open>The dictionary returned next to the verdict, one constructor per shape it takes.\<close>

datatype rate_limit_info =
    Allowed int real
  | Rejected int real real
  | LimiterError string

text \<open>
  \<^verbatim>\<open>RateLimiter.is_allowed\<close> at \<^verbatim>\<open>time.time() = current_time\<close>. The bucket is updated
  in place before the returned dictionary is built; \<^verbatim>\<open>1 / self.tokens_per_second\<close> in
  that dictionary raises \<^verbatim>\<open>ZeroDivisionError\<close> when the rate is 0, and the handler
  then lets the request through. \<^verbatim>\<open>int(bucket['tokens'])\<close> truncates a value that is
  not negative at that point.
\<close>

definition is_allowed :: "RateLimiter \<Rightarrow> string \<Rightarrow> real \<Rightarrow> (bool \<times> rate_limit_info) \<times> RateLimiter" where
  "is_allowed rl client_id current_time =
     (let b0 = (case buckets rl client_id of
                  None \<Rightarrow> \<lparr> tokens = real_of_int (burst_size rl), last_refill = current_time \<rparr>
                | Some b \<Rightarrow> b);
          time_passed = current_time - last_refill b0;
          tokens_to_add = time_passed * tokens_per_second rl;
          b1 = \<lparr> tokens = min (real_of_int (burst_size rl)) (tokens b0 + tokens_to_add),
                 last_refill = current_time \<rparr>
      in if tokens b1 \<ge> 1 then
           (let b2 = b1\<lparr>tokens := tokens b1 - 1\<rparr>;
                rl' = rl\<lparr>buckets := (buckets rl)(client_id \<mapsto> b2)\<rparr>
            in if tokens_per_second rl = 0
               then ((True, LimiterError ''float division by zero''), rl')
               else ((True, Allowed \<lfloor>tokens b2\<rfloor> (current_time + 1 / tokens_per_second rl)), rl'))
         else
           (let rl' = rl\<lparr>buckets := (buckets rl)(client_id \<mapsto> b1)\<rparr>
            in if tokens_per_second rl = 0
               then ((True, LimiterError ''float division by zero''), rl')
               else ((False, Rejected 0 (current_time + 1 / tokens_per_second rl)
                               (1 / tokens_per_second rl)), rl')))"

text \<open>
  A client's successive requests at the given times, oldest first: the verdicts in the
  same order and the limiter after the last one.
\<close>

fun requests :: "RateLimiter \<Rightarrow> string \<Rightarrow> real list \<Rightarrow> bool list \<times> RateLimiter" where
  "requests rl client_id [] = ([], rl)"
| "requests rl client_id (t # ts) =
     (let (r, rl1) = is_allowed rl client_id t;
          (vs, rl2) = requests rl1 client_id ts
      in (fst r # vs, rl2))"

section \<open>Result cache (\<^verbatim>\<open>src/services/cache_service.py\<close>)\<close>

text \<open>
  A cached value is any Python object, \<^verbatim>\<open>None\<close> included: it is an \<open>'v option\<close> with
  \<open>None\<close> for Python's \<^verbatim>\<open>None\<close>. The \<^verbatim>\<open>OrderedDict\<close> is a list of key and item in
  the dictionary's order, the oldest entry first.
\<close>

record 'v cache_item =
  item_value :: "'v option"
  expires_at :: real
  created_at :: real

record 'v CacheService =
  max_size :: int
  default_ttl :: real
  cache :: "(string \<times> 'v cache_item) list"
  memory_threshold :: real
  hits :: nat
  misses :: nat
  evictions :: nat
  size :: nat

definition CacheService_init :: "int \<Rightarrow> real \<Rightarrow> 'v CacheService" where
  "CacheService_init maxsize ttl =
     \<lparr> max_size = maxsize, default_ttl = ttl, cache = [], memory_threshold = 0.8,
       hits = 0, misses = 0, evictions = 0, size = 0 \<rparr>"

text \<open>\<^verbatim>\<open>del d[key]\<close> and \<^verbatim>\<open>d.move_to_end(key)\<close> on the ordered dictionary.\<close>

definition del_key :: "string \<Rightarrow> (string \<times> 'a) list \<Rightarrow> (string \<times> 'a) list" where
  "del_key key d = filter (\<lambda>kv. fst kv \<noteq> key) d"

definition move_to_end :: "string \<Rightarrow> (string \<times> 'a) list \<Rightarrow> (string \<times> 'a) list" where
  "move_to_end key d =
     (case map_of d key of None \<Rightarrow> d | Some v \<Rightarrow> del_key key d @ [(key, v)])"

text \<open>\<^verbatim>\<open>CacheService.get\<close> at \<^verbatim>\<open>time.time() = now\<close>.\<close>

definition get :: "'v CacheService \<Rightarrow> string \<Rightarrow> real \<Rightarrow> 'v option \<times> 'v CacheService" where
  "get svc key now =
     (case map_of (cache svc) key of
        None \<Rightarrow> (None, svc\<lparr>misses := misses svc + 1\<rparr>)
      | Some item \<Rightarrow>
          if now > expires_at item then
            (let c' = del_key key (cache svc)
             in (None, svc\<lparr>cache := c', misses := misses svc + 1, size := length c'\<rparr>))
          else
            (item_value item,
             svc\<lparr>cache := move_to_end key (cache svc), hits := hits svc + 1\<rparr>))"

text \<open>\<^verbatim>\<open>CacheService._evict_oldest\<close>.\<close>

definition evict_oldest :: "'v CacheService \<Rightarrow> 'v CacheService" where
  "evict_oldest svc =
     (if cache svc \<noteq> []
      then svc\<lparr>cache := tl (cache svc), evictions := evictions svc + 1\<rparr>
      else svc)"

text \<open>
  \<^verbatim>\<open>CacheService._check_memory_usage\<close>. \<open>mem\<close> is the reading
  \<^verbatim>\<open>psutil.virtual_memory().percent\<close>, or \<open>None\<close> when the query raises (the handler
  logs and goes on).
\<close>

definition check_memory_usage :: "real option \<Rightarrow> 'v CacheService \<Rightarrow> 'v CacheService" where
  "check_memory_usage mem svc =
     (case mem of
        None \<Rightarrow> svc
      | Some percent \<Rightarrow>
          if percent / 100 > memory_threshold svc
          then (let evict_count = max 1 (length (cache svc) div 4)
                in (evict_oldest ^^ evict_count) svc)
          else svc)"

text \<open>
  The loop \<^verbatim>\<open>while len(self._cache) > self.max_size: self._evict_oldest()\<close>; \<open>None\<close>
  stands for a loop that never ends.
\<close>

partial_function (option) evict_over_capacity :: "'v CacheService \<Rightarrow> 'v CacheService option" where
  "evict_over_capacity svc =
     (if int (length (cache svc)) > max_size svc
      then evict_over_capacity (evict_oldest svc)
      else Some svc)"

declare evict_over_capacity.simps [code]

text \<open>
  \<^verbatim>\<open>CacheService.set\<close>; both readings of \<^verbatim>\<open>time.time()\<close> in the method are \<open>now\<close>, and
  \<open>ttl = None\<close> selects the default.
\<close>

definition set_item ::
  "'v CacheService \<Rightarrow> string \<Rightarrow> 'v option \<Rightarrow> real option \<Rightarrow> real \<Rightarrow> real option \<Rightarrow>
   (bool \<times> 'v CacheService) option"
where
  "set_item svc key v ttl now mem =
     (let svc1 = check_memory_usage mem svc;
          ttl' = (case ttl of None \<Rightarrow> default_ttl svc1 | Some t \<Rightarrow> t);
          item = \<lparr> item_value = v, expires_at = now + ttl', created_at = now \<rparr>;
          svc2 = svc1\<lparr>cache := del_key key (cache svc1) @ [(key, item)]\<rparr>
      in case evict_over_capacity svc2 of
           None \<Rightarrow> None
         | Some svc3 \<Rightarrow> Some (True, svc3\<lparr>size := length (cache svc3)\<rparr>))"


text \<open>\<^verbatim>\<open>CacheService.delete\<close>, \<^verbatim>\<open>clear\<close> and \<^verbatim>\<open>cleanup_expired\<close>.\<close>

definition delete :: "'v CacheService \<Rightarrow> string \<Rightarrow> bool \<times> 'v CacheService" where
  "delete svc key =
     (if map_of (cache svc) key \<noteq> None
      then (let c' = del_key key (cache svc) in (True, svc\<lparr>cache := c', size := length c'\<rparr>))
      else (False, svc))"

definition clear :: "'v CacheService \<Rightarrow> 'v CacheService" where
  "clear svc = svc\<lparr>cache := [], size := 0\<rparr>"

definition cleanup_expired :: "'v CacheService \<Rightarrow> real \<Rightarrow> nat \<times> 'v CacheService" where
  "cleanup_expired svc current_time =
     (let expired_keys = map fst (filter (\<lambda>kv. current_time > expires_at (snd kv)) (cache svc));
          c' = fold del_key expired_keys (cache svc)
      in (length expired_keys, svc\<lparr>cache := c', size := length c'\<rparr>))"



section \<open>Embedding generator (\<^verbatim>\<open>src/services/embedding_service.py\<close>)\<close>

text \<open>
  \<^verbatim>\<open>EmbeddingService._preprocess_text\<close> for a \<^verbatim>\<open>str\<close> argument, with the service's
  \<open>max_seq_length\<close>.
\<close>

definition preprocess_text :: "int \<Rightarrow> string \<Rightarrow> string" where
  "preprocess_text max_seq_length text =
     (if text = [] then []
      else
        (let processed = strip text;
             processed = (if int (length processed) > max_seq_length * 4
                          then slice processed 0 (max_seq_length * 4)
                          else processed)
         in join '' '' (split_ws processed)))"

text \<open>
  \<^verbatim>\<open>EmbeddingService._get_optimal_batch_size\<close>. \<open>available\<close> is
  \<^verbatim>\<open>psutil.virtual_memory().available\<close> in bytes, or \<open>None\<close> when the query raises; the
  handler then returns the service's fixed \<open>_batch_size\<close> of 32.
\<close>

definition get_optimal_batch_size :: "nat option \<Rightarrow> int \<Rightarrow> int" where
  "get_optimal_batch_size available num_texts =
     (case available of
        None \<Rightarrow> 32
      | Some bytes \<Rightarrow>
          (let available_memory_gb = real bytes / (1024 ^ 3);
               base_batch_size =
                 (if available_memory_gb > 8 then 64
                  else if available_memory_gb > 4 then 32
                  else if available_memory_gb > 2 then 16
                  else (8::int))
           in if num_texts < 100 then min base_batch_size num_texts
              else if num_texts < 1000 then min (base_batch_size * 2) num_texts
              else min (base_batch_size * 4) num_texts))"

text \<open>
  The batch size as the specification words it: a base chosen by the available memory,
  a scale chosen by the number of texts, and a cap.
\<close>

definition spec_base_batch_size :: "nat \<Rightarrow> int" where
  "spec_base_batch_size bytes =
     (if bytes > 8 * 1024 ^ 3 then 64
      else if bytes > 4 * 1024 ^ 3 then 32
      else if bytes > 2 * 1024 ^ 3 then 16
      else 8)"

definition spec_scale :: "int \<Rightarrow> int" where
  "spec_scale num_texts =
     (if num_texts < 100 then 1 else if 100 \<le> num_texts \<and> num_texts \<le> 999 then 2 else 4)"

definition spec_batch_size :: "nat \<Rightarrow> int \<Rightarrow> int" where
  "spec_batch_size bytes num_texts =
     min (spec_base_batch_size bytes * spec_scale num_texts) num_texts"

text \<open>
  The body of the \<^verbatim>\<open>try\<close> block of \<^verbatim>\<open>EmbeddingService._check_memory_usage\<close>, and the
  method with its handler \<^verbatim>\<open>except Exception as e: logger.warning(...)\<close>, which receives
  the \<^verbatim>\<open>EmbeddingServiceError\<close> raised in the body. \<open>mem k\<close> is the \<open>k\<close>-th reading of
  \<^verbatim>\<open>psutil.virtual_memory().percent\<close> the service makes and \<open>k\<close> counts the readings
  made so far; the flag tells whether \<^verbatim>\<open>gc.collect()\<close> ran.
\<close>

definition check_memory_body :: "real \<Rightarrow> (nat \<Rightarrow> real) \<Rightarrow> nat \<Rightarrow> (exn + unit) \<times> bool \<times> nat" where
  "check_memory_body threshold mem k =
     (if mem k / 100 > threshold then
        (if mem (k + 1) / 100 > threshold
         then (Inl (EmbeddingServiceError ''Memory usage too high''), True, k + 2)
         else (Inr (), True, k + 2))
      else (Inr (), False, k + 1))"

definition embedding_check_memory_usage ::
  "real \<Rightarrow> (nat \<Rightarrow> real) \<Rightarrow> nat \<Rightarrow> (exn + unit) \<times> bool \<times> nat"
where
  "embedding_check_memory_usage threshold mem k =
     (case check_memory_body threshold mem k of
        (Inl e, collected, k') \<Rightarrow> (Inr (), collected, k')
      | (Inr u, collected, k') \<Rightarrow> (Inr u, collected, k'))"

text \<open>
  \<^verbatim>\<open>range(0, stop, step)\<close> for \<open>stop \<ge> 0\<close>: a zero step raises \<^verbatim>\<open>ValueError\<close>, a negative
  one gives the empty range.
\<close>

definition range_from_0 :: "nat \<Rightarrow> int \<Rightarrow> exn + nat list" where
  "range_from_0 stop step =
     (if step = 0 then Inl (ValueError ''range() arg 3 must not be zero'')
      else if step < 0 then Inr []
      else Inr (map (\<lambda>j. j * nat step) [0 ..< (stop + nat step - 1) div nat step]))"

text \<open>
  The loop of \<^verbatim>\<open>_generate_embeddings_optimized\<close> over the start indices \<open>i\<close> of the
  batches. \<open>encode\<close> is the loaded model on one text: \<^verbatim>\<open>model.encode(batch)\<close> returns
  the vector of each text of the batch, in the batch's order. The state is the list
  \<open>all_embeddings\<close> and the count of memory readings.
\<close>

fun embed_batches ::
  "(string \<Rightarrow> 'e) \<Rightarrow> real \<Rightarrow> (nat \<Rightarrow> real) \<Rightarrow> string list \<Rightarrow> int \<Rightarrow> nat list \<Rightarrow> 'e list list \<Rightarrow> nat \<Rightarrow>
   exn + ('e list list \<times> nat)"
where
  "embed_batches encode threshold mem texts batch_size [] all_embeddings k = Inr (all_embeddings, k)"
| "embed_batches encode threshold mem texts batch_size (i # rest) all_embeddings k =
     (let batch_texts = slice texts (int i) (int i + batch_size);
          batch_num = int i div batch_size + 1;
          batch_embeddings = map encode batch_texts;
          all_embeddings' = all_embeddings @ [batch_embeddings]
      in if batch_num mod 5 = 0
         then (case embedding_check_memory_usage threshold mem k of
                 (Inl e, collected, k') \<Rightarrow> Inl e
               | (Inr u, collected, k') \<Rightarrow>
                   embed_batches encode threshold mem texts batch_size rest all_embeddings' k')
         else embed_batches encode threshold mem texts batch_size rest all_embeddings' k)"

text \<open>
  \<^verbatim>\<open>EmbeddingService._generate_embeddings_optimized\<close>: every exception inside becomes an
  \<^verbatim>\<open>EmbeddingServiceError\<close>; \<^verbatim>\<open>np.vstack\<close> of no batch at all raises \<^verbatim>\<open>ValueError\<close>.
\<close>

definition generate_embeddings_optimized ::
  "(string \<Rightarrow> 'e) \<Rightarrow> real \<Rightarrow> (nat \<Rightarrow> real) \<Rightarrow> string list \<Rightarrow> int \<Rightarrow> nat \<Rightarrow> exn + ('e list \<times> nat)"
where
  "generate_embeddings_optimized encode threshold mem texts batch_size k =
     (case range_from_0 (length texts) batch_size of
        Inl e \<Rightarrow> Inl (EmbeddingServiceError ''Failed to generate optimized embeddings'')
      | Inr starts \<Rightarrow>
          (case embed_batches encode threshold mem texts batch_size starts [] k of
             Inl e \<Rightarrow> Inl (EmbeddingServiceError ''Failed to generate optimized embeddings'')
           | Inr (all_embeddings, k') \<Rightarrow>
               if all_embeddings = []
               then Inl (EmbeddingServiceError ''Failed to generate optimized embeddings'')
               else Inr (concat all_embeddings, k')))"

text \<open>
  \<^verbatim>\<open>EmbeddingService.get_embeddings_batch\<close> once the model is loaded. \<open>available\<close> and
  \<open>mem\<close> are the memory readings, \<open>processing_time\<close> the difference of the two clock
  readings around the generation: the log line divides by it, and a
  \<^verbatim>\<open>ZeroDivisionError\<close> there is re-raised as \<^verbatim>\<open>EmbeddingServiceError\<close>.
\<close>

definition get_embeddings_batch ::
  "(string \<Rightarrow> 'e) \<Rightarrow> int \<Rightarrow> real \<Rightarrow> nat option \<Rightarrow> (nat \<Rightarrow> real) \<Rightarrow> real \<Rightarrow> string list \<Rightarrow> int option \<Rightarrow>
   exn + 'e list"
where
  "get_embeddings_batch encode max_seq_length threshold available mem processing_time texts batch_size =
     (if texts = [] then Inr []
      else
        (let bs = (case batch_size of
                     None \<Rightarrow> get_optimal_batch_size available (int (length texts))
                   | Some b \<Rightarrow> b);
             processed_texts = map (preprocess_text max_seq_length) texts;
             valid_texts = filter (\<lambda>t. strip t \<noteq> []) processed_texts
         in if valid_texts = []
            then Inl (EmbeddingServiceError ''No valid texts after preprocessing'')
            else
              (case embedding_check_memory_usage threshold mem 0 of
                 (Inl e, collected, k) \<Rightarrow> Inl e
               | (Inr u, collected, k) \<Rightarrow>
                   (case generate_embeddings_optimized encode threshold mem valid_texts bs k of
                      Inl e \<Rightarrow> Inl e
                    | Inr (embeddings, k') \<Rightarrow>
                        if processing_time = 0
                        then Inl (EmbeddingServiceError ''Failed to generate batch embeddings'')
                        else Inr embeddings))))"


section \<open>Scenarios\<close>

text \<open>
  Concrete collaborators for the evaluations below. The world of the resilience scenarios
  is the clock reading paired with the number of invocations of the wrapped function.
\<close>

definition outcome :: "bool \<Rightarrow> (real \<times> nat, unit) callable" where
  "outcome ok w =
     (if ok then Inr () else Inl (OtherException ''service down''), (fst w, snd w + 1))"

text \<open>
  The breaker after each of a series of calls; an event is the time of the call and
  whether the wrapped function succeeds in it.
\<close>

fun calls_at :: "CircuitBreaker \<Rightarrow> (real \<times> bool) list \<Rightarrow> CircuitBreaker list" where
  "calls_at cb [] = []"
| "calls_at cb (ev # evs) =
     (let (r, cb', w') = call fst (outcome (snd ev)) cb (fst ev, 0)
      in cb' # calls_at cb' evs)"

text \<open>
  Five failures, then two half-open episodes: two successes and a failure in the first,
  one success in the second.
\<close>

definition two_episodes :: "(real \<times> bool) list" where
  "two_episodes =
     [(0, False), (1, False), (2, False), (3, False), (4, False),
      (64, True), (65, True), (66, False), (126, True)]"

text \<open>A function that fails when first invoked and returns its invocation count afterwards.\<close>

definition flaky :: "(real \<times> nat, nat) callable" where
  "flaky w =
     (if snd w = 0 then Inl (OtherException ''boom'') else Inr (snd w), (fst w, snd w + 1))"

text \<open>A delay of one second without jitter, and a sleep that leaves the world as it is.\<close>

definition one_second :: "nat \<Rightarrow> (real \<times> nat, real) callable" where
  "one_second attempt w = (Inr 1, w)"

definition no_sleep :: "real \<Rightarrow> (real \<times> nat, unit) callable" where
  "no_sleep delay w = (Inr (), w)"

text \<open>Memory at 95 percent at every reading, and a model whose vector is the text's length.\<close>

definition memory_always_high :: "nat \<Rightarrow> real" where
  "memory_always_high k = 95"

definition text_length :: "string \<Rightarrow> nat" where
  "text_length t = length t"

text \<open>
  A cache of capacity 1 whose only entry expires at time 10, and a cache that holds
  \<^verbatim>\<open>None\<close> under its only key until time 100.
\<close>

definition stale_cache :: "nat CacheService" where
  "stale_cache =
     (CacheService_init 1 3600)
       \<lparr>cache := [(''k'', \<lparr> item_value = Some 7, expires_at = 10, created_at = 0 \<rparr>)]\<rparr>"





text \<open>
  Two sequences of random identifier suffixes, a document without metadata, and a text of
  76 characters whose first sentence ends at position 41.
\<close>

definition uuids_zeros :: "nat \<Rightarrow> string" where
  "uuids_zeros k = ''00000000''"

definition uuids_effs :: "nat \<Rightarrow> string" where
  "uuids_effs k = ''ffffffff''"

definition no_metadata :: "string \<rightharpoonup> string" where
  "no_metadata k = None"

definition refund_policy :: string where
  "refund_policy =
     ''Please send all items back within 7 days. Refunds exclude the shipping fees.''"

section \<open>Properties\<close>

subsection \<open>Adaptive batch size\<close>

lemma available_gb_threshold:
  "(real bytes / 1024 ^ 3 > real c) = (bytes > c * 1024 ^ 3)"
proof -
  have "(real bytes / 1024 ^ 3 > real c) = (real c * 1024 ^ 3 < real bytes)"
    by (simp add: pos_less_divide_eq)
  also have "\<dots> = (real (c * 1024 ^ 3) < real bytes)" by simp
  also have "\<dots> = (c * 1024 ^ 3 < bytes)" by (rule of_nat_less_iff)
  finally show ?thesis .
qed

text \<open>
  Claim C9. Whenever the available memory can be read, the adaptive batch size is the
  specified one: base 64 above 8GB, 32 above 4GB, 16 above 2GB and 8 otherwise; unscaled
  below 100 texts, doubled from 100 to 999 texts, quadrupled from 1000 texts on; capped
  at the number of texts.
\<close>

theorem batch_size_as_specified:
  "get_optimal_batch_size (Some bytes) num_texts = spec_batch_size bytes num_texts"
proof -
  have g8: "(real bytes / 1024 ^ 3 > 8) = (bytes > 8 * 1024 ^ 3)"
    using available_gb_threshold [of 8 bytes] by simp
  have g4: "(real bytes / 1024 ^ 3 > 4) = (bytes > 4 * 1024 ^ 3)"
    using available_gb_threshold [of 4 bytes] by simp
  have g2: "(real bytes / 1024 ^ 3 > 2) = (bytes > 2 * 1024 ^ 3)"
    using available_gb_threshold [of 2 bytes] by simp
  show ?thesis
    unfolding get_optimal_batch_size_def spec_batch_size_def spec_base_batch_size_def
      spec_scale_def
    by (simp only: option.case Let_def g8 g4 g2) auto
qed


subsection \<open>Memory check of the embedding generator\<close>

lemma check_memory_never_raises:
  "\<exists>collected k'. embedding_check_memory_usage threshold mem k = (Inr (), collected, k')"
  by (auto simp: embedding_check_memory_usage_def check_memory_body_def)

text \<open>
  Claim C5. With memory above the threshold before and after the collection pass, the
  body of the check raises its error, but the method's own handler catches it: the check
  returns normally, and a batch call that reaches the check after its fifth batch still
  returns all its vectors.
\<close>

theorem memory_error_is_swallowed:
  "fst (check_memory_body 0.8 memory_always_high 0) =
     Inl (EmbeddingServiceError ''Memory usage too high'')
   \<and> fst (embedding_check_memory_usage 0.8 memory_always_high 0) = Inr ()
   \<and> get_embeddings_batch text_length 512 0.8 None memory_always_high 1
        [''a'', ''bb'', ''c'', ''d'', ''e''] (Some 1) = Inr [1, 2, 1, 1, 1]"
  by code_simp

subsection \<open>Batch embedding\<close>

lemma embed_batches_result:
  "\<exists>k'. embed_batches encode threshold mem texts bs starts acc k =
     Inr (acc @ map (\<lambda>i. map encode (slice texts (int i) (int i + bs))) starts, k')"
proof (induction starts arbitrary: acc k)
  case Nil
  then show ?case by simp
next
  case (Cons i rest)
  obtain c k1 where ck: "embedding_check_memory_usage threshold mem k = (Inr (), c, k1)"
    using check_memory_never_raises by blast
  show ?case
  proof (cases "(int i div bs + 1) mod 5 = 0")
    case True
    then show ?thesis
      using Cons.IH [of "acc @ [map encode (slice texts (int i) (int i + bs))]" k1] ck
      by (simp add: Let_def)
  next
    case False
    then show ?thesis
      using Cons.IH [of "acc @ [map encode (slice texts (int i) (int i + bs))]" k]
      by (simp add: Let_def)
  qed
qed

lemma slice_nat: "slice xs (int a) (int a + int b) = take b (drop a xs)"
  by (auto simp: slice_def slice_index_def Let_def min_def)

lemma concat_slices:
  "concat (map (\<lambda>j. take b (drop (j * b) xs)) [0..<m]) = take (m * b) xs"
proof (induction m)
  case 0
  then show ?case by simp
next
  case (Suc m)
  have "take (m * b) xs @ take b (drop (m * b) xs) = take (m * b + b) xs"
    by (simp add: take_add)
  then show ?case using Suc by (simp add: add.commute)
qed

lemma range_covers:
  assumes "0 < b"
  shows "(n::nat) \<le> ((n + b - 1) div b) * b"
proof -
  have "(n + b - 1) mod b < b" using assms by simp
  moreover have "((n + b - 1) div b) * b + (n + b - 1) mod b = n + b - 1" by simp
  ultimately show ?thesis by linarith
qed

lemma generate_all:
  assumes "0 < bs" "texts \<noteq> []"
  shows "\<exists>k'. generate_embeddings_optimized encode threshold mem texts bs k =
               Inr (map encode texts, k')"
proof -
  define b where "b = nat bs"
  define m where "m = (length texts + b - 1) div b"
  have b: "0 < b" "bs = int b" using assms by (simp_all add: b_def)
  have r: "range_from_0 (length texts) bs = Inr (map (\<lambda>j. j * b) [0..<m])"
    using assms by (simp add: range_from_0_def b_def m_def)
  obtain k' where e:
    "embed_batches encode threshold mem texts bs (map (\<lambda>j. j * b) [0..<m]) [] k =
       Inr ([] @ map (\<lambda>i. map encode (slice texts (int i) (int i + bs)))
                   (map (\<lambda>j. j * b) [0..<m]), k')"
    using embed_batches_result by blast
  have mpos: "0 < m"
  proof -
    have "length texts \<le> m * b" unfolding m_def using range_covers [OF b(1)] .
    moreover have "0 < length texts" using assms by simp
    ultimately show ?thesis by (cases m) auto
  qed
  have cc: "concat (map (\<lambda>i. map encode (slice texts (int i) (int i + bs)))
                      (map (\<lambda>j. j * b) [0..<m])) = map encode texts"
  proof -
    have "concat (map (\<lambda>i. map encode (slice texts (int i) (int i + bs)))
                    (map (\<lambda>j. j * b) [0..<m]))
        = map encode (concat (map (\<lambda>j. take b (drop (j * b) texts)) [0..<m]))"
      by (simp add: map_concat comp_def b(2) slice_nat)
    also have "\<dots> = map encode (take (m * b) texts)" by (simp only: concat_slices)
    also have "\<dots> = map encode texts"
      using range_covers [OF b(1), of "length texts"] by (simp add: m_def)
    finally show ?thesis .
  qed
  have ne: "map (\<lambda>i. map encode (slice texts (int i) (int i + bs)))
              (map (\<lambda>j. j * b) [0..<m]) \<noteq> []"
    using mpos by simp
  show ?thesis
    unfolding generate_embeddings_optimized_def r
    using e ne cc by simp
qed

lemma optimal_batch_size_pos: "0 < n \<Longrightarrow> 0 < get_optimal_batch_size available n"
  by (auto simp: get_optimal_batch_size_def Let_def split: option.splits)

text \<open>
  Claim C6, as stated, fails: of two texts one of which is blank the batch call returns
  one vector and no error.
\<close>

theorem batch_skips_blank_text:
  "get_embeddings_batch text_length 512 0.8 None memory_always_high 1 [''a'', '' ''] None
     = Inr [1]"
  by code_simp

text \<open>
  Claim C6, amended. For a non-empty list of texts, a positive batch size (the adaptive
  one or one the caller gives) and a processing time that is not zero, the batch call
  returns the vectors of exactly the texts that are not empty after preprocessing, in
  the order of the input; texts that become empty are dropped, and the call is rejected
  only when every text becomes empty.
\<close>

theorem batch_embeds_nonempty_texts_in_order:
  assumes "texts \<noteq> []"
      and "batch_size = None \<or> (\<exists>b. batch_size = Some b \<and> 0 < b)"
      and "processing_time \<noteq> 0"
  shows "get_embeddings_batch encode max_seq_length threshold available mem processing_time
           texts batch_size =
         (let valid_texts = filter (\<lambda>t. strip t \<noteq> []) (map (preprocess_text max_seq_length) texts)
          in if valid_texts = []
             then Inl (EmbeddingServiceError ''No valid texts after preprocessing'')
             else Inr (map encode valid_texts))"
proof -
  define bs where
    "bs = (case batch_size of
             None \<Rightarrow> get_optimal_batch_size available (int (length texts))
           | Some b \<Rightarrow> b)"
  have "0 < int (length texts)" using assms(1) by simp
  then have "0 < get_optimal_batch_size available (int (length texts))"
    by (rule optimal_batch_size_pos)
  then have bs: "0 < bs" using assms(2) by (auto simp: bs_def)
  define valid where
    "valid = filter (\<lambda>t. strip t \<noteq> []) (map (preprocess_text max_seq_length) texts)"
  obtain c k1 where ck: "embedding_check_memory_usage threshold mem 0 = (Inr (), c, k1)"
    using check_memory_never_raises by blast
  show ?thesis
  proof (cases "valid = []")
    case True
    then show ?thesis
      using assms(1) by (simp add: get_embeddings_batch_def valid_def Let_def)
  next
    case False
    obtain k' where g:
      "generate_embeddings_optimized encode threshold mem valid bs k1 = Inr (map encode valid, k')"
      using generate_all [OF bs False] by blast
    show ?thesis
      using assms(1,3) False ck g
      by (simp add: get_embeddings_batch_def valid_def [symmetric] bs_def [symmetric] Let_def)
  qed
qed

theorem batch_embeds_nonempty_texts_in_order_witness:
  "[''x y'', ''  '', ''z''] \<noteq> [] \<and> (2::real) \<noteq> 0
   \<and> get_embeddings_batch text_length 512 0.8 None memory_always_high 2
        [''x y'', ''  '', ''z''] (Some 2) = Inr [3, 1]"
proof -
  have v: "filter (\<lambda>t. strip t \<noteq> []) (map (preprocess_text 512) [''x y'', ''  '', ''z''])
             = [''x y'', ''z'']"
    by code_simp
  have "get_embeddings_batch text_length 512 0.8 None memory_always_high 2
          [''x y'', ''  '', ''z''] (Some 2) =
        (let valid_texts = filter (\<lambda>t. strip t \<noteq> []) (map (preprocess_text 512) [''x y'', ''  '', ''z''])
         in if valid_texts = []
            then Inl (EmbeddingServiceError ''No valid texts after preprocessing'')
            else Inr (map text_length valid_texts))"
    by (rule batch_embeds_nonempty_texts_in_order) simp_all
  then have "get_embeddings_batch text_length 512 0.8 None memory_always_high 2
          [''x y'', ''  '', ''z''] (Some 2) = Inr (map text_length [''x y'', ''z''])"
    unfolding v Let_def by simp
  then show ?thesis by (simp add: text_length_def)
qed

subsection \<open>Circuit breaker\<close>

lemma closed_transitions:
  assumes "state cb = CLOSED"
  shows "func w = (Inr v, w') \<Longrightarrow>
           call clock func cb w = (Inr v, cb\<lparr>failure_count := 0\<rparr>, w')"
    and "func w = (Inl e, w') \<Longrightarrow>
           call clock func cb w =
             (Inl e,
              cb\<lparr>failure_count := failure_count cb + 1, last_failure_time := clock w',
                 state := (if failure_count cb + 1 \<ge> failure_threshold (config cb)
                           then OPEN else CLOSED)\<rparr>, w')"
  using assms by (simp_all add: call_def on_success_def on_failure_def Let_def)

lemma open_rejects_before_timeout:
  assumes "state cb = OPEN" and "clock w - last_failure_time cb < recovery_timeout (config cb)"
  shows "call clock func cb w = (Inl (PolicyPilotException ''Circuit breaker is OPEN''), cb, w)"
  using assms by (simp add: call_def should_attempt_reset_def)

lemma half_open_failure_reopens:
  assumes "state cb = HALF_OPEN" and "func w = (Inl e, w')"
  shows "state (fst (snd (call clock func cb w))) = OPEN
         \<and> success_count (fst (snd (call clock func cb w))) = success_count cb"
  using assms by (simp add: call_def on_failure_def Let_def)

text \<open>
  Claim C3. With the default configuration (five failures open the breaker, recovery
  after 60 seconds, three successes close it) the breaker opens at the fifth failure,
  counts two successes in its first half-open episode, reopens at the failure that ends
  the episode with the count still at two, and in the second episode closes at the
  first success.
\<close>

theorem breaker_closes_after_one_success:
  "map (\<lambda>cb. (state cb, success_count cb)) (calls_at (CircuitBreaker_init None) two_episodes)
     = [(CLOSED, 0), (CLOSED, 0), (CLOSED, 0), (CLOSED, 0), (OPEN, 0),
        (HALF_OPEN, 1), (HALF_OPEN, 2), (OPEN, 2), (CLOSED, 0)]"
  by (simp add: two_episodes_def call_def outcome_def CircuitBreaker_init_def
        default_CircuitBreakerConfig_def should_attempt_reset_def on_success_def
        on_failure_def Let_def)

subsection \<open>Resilient call\<close>

text \<open>
  Claim C4, as stated, fails: with a fresh (closed) breaker and a function that fails
  once, the failure does not propagate; the retry handler invokes the function a second
  time and the call returns that second result.
\<close>

theorem fallback_with_closed_breaker:
  "fst (resilient_call fst one_second no_sleep ResilienceManager_init ''search''
          (Some ''flaky'') flaky (0, 0)) = Inr 1
   \<and> snd (snd (resilient_call fst one_second no_sleep ResilienceManager_init ''search''
                  (Some ''flaky'') flaky (0, 0))) = (0, 2)"
  by (simp add: resilient_call_def get_circuit_breaker_def ResilienceManager_init_def
        CircuitBreaker_init_def default_CircuitBreakerConfig_def call_def flaky_def
        on_failure_def get_retry_handler_def default_RetryConfig_def retry_def no_sleep_def
        Let_def numeral_3_eq_3)

lemma retry_handler_of_manager:
  "fst (get_retry_handler
          ((snd (get_circuit_breaker m service_name None))
             \<lparr>circuit_breakers := cbs\<rparr>) service_name None)
     = fst (get_retry_handler m service_name None)"
  by (simp add: get_retry_handler_def get_circuit_breaker_def Let_def split: option.splits)

lemma resilient_call_raised:
  assumes "call clock func (fst (get_circuit_breaker m service_name None)) w = (Inl e, cb', w')"
  shows "fst (resilient_call clock calculate_delay sleep m service_name func_name func w)
           = fst (retry (fst (get_retry_handler m service_name None)) calculate_delay sleep
                    func_name func w')
       \<and> snd (snd (resilient_call clock calculate_delay sleep m service_name func_name func w))
           = snd (retry (fst (get_retry_handler m service_name None)) calculate_delay sleep
                    func_name func w')
       \<and> circuit_breakers
            (fst (snd (resilient_call clock calculate_delay sleep m service_name func_name func w)))
            service_name = Some cb'"
proof -
  obtain cb m1 where g: "get_circuit_breaker m service_name None = (cb, m1)"
    by (cases "get_circuit_breaker m service_name None")
  define m2 where "m2 = m1\<lparr>circuit_breakers := (circuit_breakers m1)(service_name \<mapsto> cb')\<rparr>"
  obtain h m3 where r: "get_retry_handler m2 service_name None = (h, m3)"
    by (cases "get_retry_handler m2 service_name None")
  have h: "h = fst (get_retry_handler m service_name None)"
    using retry_handler_of_manager
        [where m = m and service_name = service_name
           and cbs = "(circuit_breakers m1)(service_name \<mapsto> cb')"]
      g r by (simp add: m2_def)
  have c3: "circuit_breakers m3 service_name = Some cb'"
    using r by (auto simp: get_retry_handler_def m2_def Let_def split: option.splits)
  obtain rr w2 where t: "retry h calculate_delay sleep func_name func w' = (rr, w2)"
    by (cases "retry h calculate_delay sleep func_name func w'")
  have "resilient_call clock calculate_delay sleep m service_name func_name func w = (rr, m3, w2)"
    using assms g r t unfolding m2_def
    by (cases rr) (simp_all add: resilient_call_def Let_def)
  then show ?thesis using t c3 h by simp
qed

lemma resilient_call_returned:
  assumes "call clock func (fst (get_circuit_breaker m service_name None)) w = (Inr v, cb', w')"
  shows "fst (resilient_call clock calculate_delay sleep m service_name func_name func w) = Inr v
       \<and> snd (snd (resilient_call clock calculate_delay sleep m service_name func_name func w)) = w'"
proof -
  obtain cb m1 where g: "get_circuit_breaker m service_name None = (cb, m1)"
    by (cases "get_circuit_breaker m service_name None")
  show ?thesis using assms g by (simp add: resilient_call_def Let_def)
qed

lemma resilient_call_structure:
  "let cb = fst (get_circuit_breaker m service_name None);
       h = fst (get_retry_handler m service_name None);
       rejected = (state cb = OPEN \<and> \<not> should_attempt_reset (clock w) cb);
       res = resilient_call clock calculate_delay sleep m service_name func_name func w
   in (rejected \<longrightarrow>
         fst res = fst (retry h calculate_delay sleep func_name func w)
         \<and> snd (snd res) = snd (retry h calculate_delay sleep func_name func w)
         \<and> circuit_breakers (fst (snd res)) service_name = Some cb)
    \<and> (\<not> rejected \<and> fst (func w) = Inl e \<longrightarrow>
         fst res = fst (retry h calculate_delay sleep func_name func (snd (func w)))
         \<and> snd (snd res) = snd (retry h calculate_delay sleep func_name func (snd (func w)))
         \<and> circuit_breakers (fst (snd res)) service_name =
             Some (on_failure (clock (snd (func w)))
                     (if state cb = OPEN then cb\<lparr>state := HALF_OPEN\<rparr> else cb)))
    \<and> (\<not> rejected \<and> fst (func w) = Inr v \<longrightarrow>
         fst res = Inr v \<and> snd (snd res) = snd (func w))"
proof -
  define cb where "cb = fst (get_circuit_breaker m service_name None)"
  define rejected where "rejected = (state cb = OPEN \<and> \<not> should_attempt_reset (clock w) cb)"
  have a: "call clock func cb w = (Inl (PolicyPilotException ''Circuit breaker is OPEN''), cb, w)"
    if rejected
    using that by (simp add: call_def rejected_def)
  have b: "call clock func cb w =
             (Inl e, on_failure (clock (snd (func w)))
                       (if state cb = OPEN then cb\<lparr>state := HALF_OPEN\<rparr> else cb), snd (func w))"
    if "\<not> rejected" "fst (func w) = Inl e"
    using that by (cases "func w") (auto simp: call_def rejected_def Let_def)
  have c: "\<exists>cb'. call clock func cb w = (Inr v, cb', snd (func w))"
    if "\<not> rejected" "fst (func w) = Inr v"
    using that by (cases "func w") (auto simp: call_def rejected_def Let_def)
  show ?thesis
    unfolding Let_def cb_def[symmetric] rejected_def[symmetric]
    using resilient_call_raised
        [OF a[unfolded cb_def], where calculate_delay = calculate_delay and sleep = sleep
           and func_name = func_name]
      resilient_call_raised
        [OF b[unfolded cb_def], where calculate_delay = calculate_delay and sleep = sleep
           and func_name = func_name]
      resilient_call_returned
        [where clock = clock and func = func and m = m and service_name = service_name
           and w = w and v = v and w' = "snd (func w)" and calculate_delay = calculate_delay
           and sleep = sleep and func_name = func_name]
      c
    unfolding cb_def[symmetric]
    by blast
qed

lemma retry_success:
  assumes "1 \<le> max_attempts h" "fst (func w0) = Inr v"
  shows "retry h calculate_delay sleep (Some name) func w0 = (Inr v, snd (func w0))"
proof -
  obtain k where k: "nat (max_attempts h) = Suc k" using assms(1) by (cases "nat (max_attempts h)") auto
  show ?thesis using assms(2) by (cases "func w0") (simp add: retry_def k)
qed

lemma retry_single_attempt:
  assumes "max_attempts h = 1"
  shows "retry h calculate_delay sleep (Some name) func w0 = func w0"
  using assms by (cases "func w0") (auto simp: retry_def split: sum.splits)

lemma retry_failure_goes_on:
  assumes "1 < max_attempts h" "fst (func w0) = Inl e"
  shows "retry h calculate_delay sleep (Some name) func w0 =
     (case calculate_delay 0 (snd (func w0)) of
        (Inl delay_error, w2) \<Rightarrow> (Inl delay_error, w2)
      | (Inr delay, w2) \<Rightarrow>
          (case sleep delay w2 of
             (Inl sleep_error, w3) \<Rightarrow> (Inl sleep_error, w3)
           | (Inr u, w3) \<Rightarrow>
               retry_loop calculate_delay sleep (Some name) func (nat (max_attempts h) - 1) 1
                 (Some e) w3))"
proof -
  obtain k where k: "nat (max_attempts h) = Suc (Suc k)"
    using assms(1) by (cases "nat (max_attempts h)"; cases "nat (max_attempts h) - 1") auto
  show ?thesis using assms(2)
    by (cases "func w0") (auto simp: retry_def k split: prod.splits sum.splits)
qed

lemma retry_without_name:
  assumes "1 \<le> max_attempts h"
  shows "fst (retry h calculate_delay sleep None func w0) \<noteq> Inr v
       \<and> (max_attempts h = 1 \<longrightarrow>
            retry h calculate_delay sleep None func w0 = (Inl no_name_error, w0))
       \<and> (1 < max_attempts h \<longrightarrow>
            retry h calculate_delay sleep None func w0 =
              (case calculate_delay 0 w0 of
                 (Inl delay_error, w2) \<Rightarrow> (Inl delay_error, w2)
               | (Inr delay, w2) \<Rightarrow> (Inl no_name_error, w2)))"
proof -
  obtain k where k: "nat (max_attempts h) = Suc k" using assms(1) by (cases "nat (max_attempts h)") auto
  have k0: "(k = 0) = (max_attempts h = 1)" using k by linarith
  show ?thesis by (auto simp: retry_def k k0 split: sum.splits prod.splits)
qed

lemma retry_no_attempts:
  assumes "max_attempts h \<le> 0"
  shows "retry h calculate_delay sleep func_name func w0 =
           (Inl (TypeError ''exceptions must derive from BaseException''), w0)"
  using assms by (simp add: retry_def)


text \<open>
  Claim C4, amended. The fallback to the retry handler happens whenever the call through
  the breaker raises. If the breaker is open and not due for a reset, the retry handler
  runs on the world the call found. If the breaker lets the call through and the function
  fails, the breaker records the failure and the retry handler runs on the world the
  failed invocation left. Only a successful invocation returns without the retry handler.
  What the retry handler does there: for a callable with a name and a handler of at
  least one attempt it invokes the function again, a success of that invocation is the
  result of the call, with a single attempt its failure is the error of the call, and
  with more attempts a failure goes on to the delay, the sleep and the next attempt; for
  a callable without a name it raises \<^verbatim>\<open>AttributeError\<close> (or what the delay raises)
  without invoking the function; with no attempt at all it raises \<^verbatim>\<open>TypeError\<close> without
  invoking it.
\<close>

theorem resilient_call_falls_back_on_any_exception:
  "let cb = fst (get_circuit_breaker m service_name None);
       h = fst (get_retry_handler m service_name None);
       rejected = (state cb = OPEN \<and> \<not> should_attempt_reset (clock w) cb);
       res = resilient_call clock calculate_delay sleep m service_name func_name func w;
       retried = retry h calculate_delay sleep func_name func
   in (rejected \<longrightarrow>
         fst res = fst (retried w) \<and> snd (snd res) = snd (retried w)
         \<and> circuit_breakers (fst (snd res)) service_name = Some cb)
    \<and> (\<not> rejected \<and> fst (func w) = Inl e \<longrightarrow>
         fst res = fst (retried (snd (func w)))
         \<and> snd (snd res) = snd (retried (snd (func w)))
         \<and> circuit_breakers (fst (snd res)) service_name =
             Some (on_failure (clock (snd (func w)))
                     (if state cb = OPEN then cb\<lparr>state := HALF_OPEN\<rparr> else cb)))
    \<and> (\<not> rejected \<and> fst (func w) = Inr v \<longrightarrow>
         fst res = Inr v \<and> snd (snd res) = snd (func w))
    \<and> (\<not> rejected \<and> fst (func w) = Inl e \<and> func_name = Some name \<and> 1 \<le> max_attempts h
          \<and> fst (func (snd (func w))) = Inr v2 \<longrightarrow>
         fst res = Inr v2 \<and> snd (snd res) = snd (func (snd (func w))))
    \<and> (func_name = Some name \<and> 1 \<le> max_attempts h \<and> fst (func w0) = Inr v2 \<longrightarrow>
         retried w0 = (Inr v2, snd (func w0)))
    \<and> (func_name = Some name \<and> max_attempts h = 1 \<longrightarrow> retried w0 = func w0)
    \<and> (func_name = Some name \<and> 1 < max_attempts h \<and> fst (func w0) = Inl e2 \<longrightarrow>
         retried w0 =
           (case calculate_delay 0 (snd (func w0)) of
              (Inl delay_error, w2) \<Rightarrow> (Inl delay_error, w2)
            | (Inr delay, w2) \<Rightarrow>
                (case sleep delay w2 of
                   (Inl sleep_error, w3) \<Rightarrow> (Inl sleep_error, w3)
                 | (Inr u, w3) \<Rightarrow>
                     retry_loop calculate_delay sleep func_name func (nat (max_attempts h) - 1) 1
                       (Some e2) w3)))
    \<and> (func_name = None \<and> max_attempts h = 1 \<longrightarrow> retried w0 = (Inl no_name_error, w0))
    \<and> (func_name = None \<and> 1 < max_attempts h \<longrightarrow>
         retried w0 =
           (case calculate_delay 0 w0 of
              (Inl delay_error, w2) \<Rightarrow> (Inl delay_error, w2)
            | (Inr delay, w2) \<Rightarrow> (Inl no_name_error, w2)))
    \<and> (max_attempts h \<le> 0 \<longrightarrow>
         retried w0 = (Inl (TypeError ''exceptions must derive from BaseException''), w0))"
proof -
  define cb where "cb = fst (get_circuit_breaker m service_name None)"
  define h where "h = fst (get_retry_handler m service_name None)"
  define rejected where "rejected = (state cb = OPEN \<and> \<not> should_attempt_reset (clock w) cb)"
  define res where "res = resilient_call clock calculate_delay sleep m service_name func_name func w"
  define retried where "retried = retry h calculate_delay sleep func_name func"
  note s = resilient_call_structure
    [where m = m and service_name = service_name and clock = clock and w = w
       and calculate_delay = calculate_delay and sleep = sleep and func_name = func_name
       and func = func and e = e and v = v,
     unfolded Let_def, folded cb_def h_def, folded rejected_def res_def retried_def]
  have a1: "rejected \<longrightarrow>
         fst res = fst (retried w) \<and> snd (snd res) = snd (retried w)
         \<and> circuit_breakers (fst (snd res)) service_name = Some cb"
    using s by blast
  have a2: "\<not> rejected \<and> fst (func w) = Inl e \<longrightarrow>
         fst res = fst (retried (snd (func w)))
         \<and> snd (snd res) = snd (retried (snd (func w)))
         \<and> circuit_breakers (fst (snd res)) service_name =
             Some (on_failure (clock (snd (func w)))
                     (if state cb = OPEN then cb\<lparr>state := HALF_OPEN\<rparr> else cb))"
    using s by blast
  have a3: "\<not> rejected \<and> fst (func w) = Inr v \<longrightarrow>
         fst res = Inr v \<and> snd (snd res) = snd (func w)"
    using s by blast
  have b1: "func_name = Some name \<and> 1 \<le> max_attempts h \<and> fst (func w0) = Inr v2 \<longrightarrow>
         retried w0 = (Inr v2, snd (func w0))" for w0
    unfolding retried_def by (auto simp: retry_success)
  have c: "\<not> rejected \<and> fst (func w) = Inl e \<and> func_name = Some name \<and> 1 \<le> max_attempts h
          \<and> fst (func (snd (func w))) = Inr v2 \<longrightarrow>
         fst res = Inr v2 \<and> snd (snd res) = snd (func (snd (func w)))"
    using a2 b1[of "snd (func w)"] by auto
  have b2: "func_name = Some name \<and> max_attempts h = 1 \<longrightarrow> retried w0 = func w0"
    unfolding retried_def by (auto simp: retry_single_attempt)
  have b3: "func_name = Some name \<and> 1 < max_attempts h \<and> fst (func w0) = Inl e2 \<longrightarrow>
         retried w0 =
           (case calculate_delay 0 (snd (func w0)) of
              (Inl delay_error, w2) \<Rightarrow> (Inl delay_error, w2)
            | (Inr delay, w2) \<Rightarrow>
                (case sleep delay w2 of
                   (Inl sleep_error, w3) \<Rightarrow> (Inl sleep_error, w3)
                 | (Inr u, w3) \<Rightarrow>
                     retry_loop calculate_delay sleep func_name func (nat (max_attempts h) - 1) 1
                       (Some e2) w3))"
    unfolding retried_def using retry_failure_goes_on[of h func w0 e2 calculate_delay sleep name]
    by auto
  have b4: "func_name = None \<and> max_attempts h = 1 \<longrightarrow> retried w0 = (Inl no_name_error, w0)"
    unfolding retried_def using retry_without_name[of h calculate_delay sleep func w0] by auto
  have b5: "func_name = None \<and> 1 < max_attempts h \<longrightarrow>
         retried w0 =
           (case calculate_delay 0 w0 of
              (Inl delay_error, w2) \<Rightarrow> (Inl delay_error, w2)
            | (Inr delay, w2) \<Rightarrow> (Inl no_name_error, w2))"
    unfolding retried_def using retry_without_name[of h calculate_delay sleep func w0] by auto
  have b6: "max_attempts h \<le> 0 \<longrightarrow>
         retried w0 = (Inl (TypeError ''exceptions must derive from BaseException''), w0)"
    unfolding retried_def by (auto simp: retry_no_attempts)
  show ?thesis
    unfolding Let_def cb_def[symmetric] h_def[symmetric]
    unfolding rejected_def[symmetric] res_def[symmetric] retried_def[symmetric]
    using a1 a2 a3 c b1[of w0] b2 b3 b4 b5 b6 by (intro conjI)
qed

theorem resilient_call_falls_back_on_any_exception_witness:
  "state (fst (get_circuit_breaker ResilienceManager_init ''search'' None)) = CLOSED
   \<and> fst (flaky (0, 0)) = Inl (OtherException ''boom'')
   \<and> 1 \<le> max_attempts (fst (get_retry_handler ResilienceManager_init ''search'' None))
   \<and> fst (flaky (snd (flaky (0, 0)))) = Inr 1
   \<and> fst (resilient_call fst one_second no_sleep ResilienceManager_init ''search''
             (Some ''flaky'') flaky (0, 0)) = Inr 1
   \<and> snd (snd (resilient_call fst one_second no_sleep ResilienceManager_init ''search''
                  (Some ''flaky'') flaky (0, 0))) = snd (flaky (snd (flaky (0, 0))))"
proof -
  have p: "state (fst (get_circuit_breaker ResilienceManager_init ''search'' None)) = CLOSED"
    "fst (flaky (0, 0)) = Inl (OtherException ''boom'')"
    "1 \<le> max_attempts (fst (get_retry_handler ResilienceManager_init ''search'' None))"
    "fst (flaky (snd (flaky (0, 0)))) = Inr 1"
    by (simp_all add: get_circuit_breaker_def get_retry_handler_def ResilienceManager_init_def
          CircuitBreaker_init_def default_RetryConfig_def flaky_def Let_def)
  have "fst (resilient_call fst one_second no_sleep ResilienceManager_init ''search''
             (Some ''flaky'') flaky (0, 0)) = Inr 1
   \<and> snd (snd (resilient_call fst one_second no_sleep ResilienceManager_init ''search''
                  (Some ''flaky'') flaky (0, 0))) = snd (flaky (snd (flaky (0, 0))))"
    using resilient_call_falls_back_on_any_exception
      [where m = ResilienceManager_init and service_name = "''search''" and clock = fst
         and calculate_delay = one_second and sleep = no_sleep
         and func_name = "Some ''flaky''" and name = "''flaky''" and func = flaky
         and w = "(0, 0)" and e = "OtherException ''boom''" and ?v2.0 = 1,
       unfolded Let_def, THEN conjunct2, THEN conjunct2, THEN conjunct2, THEN conjunct1] p
    by simp
  then show ?thesis using p by simp
qed

subsection \<open>Token bucket\<close>

lemma requests_append:
  "requests rl c (xs @ ys) =
     (fst (requests rl c xs) @ fst (requests (snd (requests rl c xs)) c ys),
      snd (requests (snd (requests rl c xs)) c ys))"
  by (induction xs arbitrary: rl) (auto simp: Let_def split: prod.splits)

lemma burst_aux:
  assumes "burst_size rl = 10" "tokens_per_second rl = 1" "buckets rl c = Some b"
    and "sorted (last_refill b # ts)" "real (length ts) \<le> tokens b" "tokens b \<le> 10"
  shows "\<exists>rl' b'. requests rl c ts = (replicate (length ts) True, rl') \<and> burst_size rl' = 10 \<and>
           tokens_per_second rl' = 1 \<and> buckets rl' c = Some b' \<and>
           last_refill b' = last (last_refill b # ts) \<and>
           tokens b - real (length ts) \<le> tokens b' \<and>
           tokens b' \<le> tokens b - real (length ts) + (last (last_refill b # ts) - last_refill b)"
  using assms
proof (induction ts arbitrary: rl b)
  case Nil
  then show ?case by simp
next
  case (Cons t ts)
  define x where "x = min 10 (tokens b + (t - last_refill b))"
  have tl: "last_refill b \<le> t" using Cons.prems(4) by simp
  have x1: "tokens b \<le> x" "x \<le> tokens b + (t - last_refill b)" "x \<le> 10"
    using tl Cons.prems(6) by (auto simp: x_def)
  have xge: "1 \<le> x" using x1 Cons.prems(5) by simp
  define b2 where "b2 = \<lparr> tokens = x - 1, last_refill = t \<rparr>"
  define rl1 where "rl1 = rl\<lparr>buckets := (buckets rl)(c \<mapsto> b2)\<rparr>"
  have step: "is_allowed rl c t = ((True, Allowed \<lfloor>x - 1\<rfloor> (t + 1)), rl1)"
    using Cons.prems(1,2,3) xge unfolding x_def b2_def rl1_def
    by (simp add: is_allowed_def Let_def)
  have p: "burst_size rl1 = 10" "tokens_per_second rl1 = 1" "buckets rl1 c = Some b2"
    using Cons.prems(1,2) by (simp_all add: rl1_def)
  have s: "sorted (last_refill b2 # ts)" using Cons.prems(4) by (simp add: b2_def)
  have n: "real (length ts) \<le> tokens b2" using x1 Cons.prems(5) by (simp add: b2_def)
  have u: "tokens b2 \<le> 10" using x1 by (simp add: b2_def)
  from Cons.IH[OF p s n u] obtain rl' b' where
    r: "requests rl1 c ts = (replicate (length ts) True, rl')" "burst_size rl' = 10"
       "tokens_per_second rl' = 1" "buckets rl' c = Some b'"
       "last_refill b' = last (last_refill b2 # ts)"
       "tokens b2 - real (length ts) \<le> tokens b'"
       "tokens b' \<le> tokens b2 - real (length ts) + (last (last_refill b2 # ts) - last_refill b2)"
    by blast
  have l: "last (last_refill b2 # ts) = last (last_refill b # t # ts)" by (simp add: b2_def)
  have "requests rl c (t # ts) = (replicate (length (t # ts)) True, rl')"
    using step r(1) by simp
  moreover have "tokens b - real (length (t # ts)) \<le> tokens b'"
    using r(6) x1 by (simp add: b2_def)
  moreover have "tokens b' \<le> tokens b - real (length (t # ts)) + (last (last_refill b # t # ts) - last_refill b)"
    using r(7) x1 unfolding l by (simp add: b2_def)
  ultimately show ?case using r(2,3,4,5) l by auto
qed

lemma first_request:
  "is_allowed (RateLimiter_init 60 10) c t =
     ((True, Allowed 9 (t + 1)),
      (RateLimiter_init 60 10)\<lparr>buckets := [c \<mapsto> \<lparr> tokens = 9, last_refill = t \<rparr>]\<rparr>)"
  by (simp add: is_allowed_def RateLimiter_init_def Let_def)

lemma burst_from_full:
  assumes "sorted (t0 # ts)" "length ts \<le> 9"
  shows "\<exists>rl' b'. requests (RateLimiter_init 60 10) c (t0 # ts) = (replicate (Suc (length ts)) True, rl') \<and>
           burst_size rl' = 10 \<and> tokens_per_second rl' = 1 \<and> buckets rl' c = Some b' \<and>
           last_refill b' = last (t0 # ts) \<and>
           9 - real (length ts) \<le> tokens b' \<and>
           tokens b' \<le> 9 - real (length ts) + (last (t0 # ts) - t0)"
proof -
  define rl1 where "rl1 = (RateLimiter_init 60 10)\<lparr>buckets := [c \<mapsto> \<lparr> tokens = 9, last_refill = t0 \<rparr>]\<rparr>"
  have p: "burst_size rl1 = 10" "tokens_per_second rl1 = 1"
     "buckets rl1 c = Some \<lparr> tokens = 9, last_refill = t0 \<rparr>"
    by (simp_all add: rl1_def RateLimiter_init_def)
  have "\<exists>rl' b'. requests rl1 c ts = (replicate (length ts) True, rl') \<and> burst_size rl' = 10 \<and>
           tokens_per_second rl' = 1 \<and> buckets rl' c = Some b' \<and>
           last_refill b' = last (last_refill \<lparr> tokens = 9, last_refill = t0 \<rparr> # ts) \<and>
           tokens \<lparr> tokens = 9, last_refill = t0 \<rparr> - real (length ts) \<le> tokens b' \<and>
           tokens b' \<le> tokens \<lparr> tokens = 9, last_refill = t0 \<rparr> - real (length ts) + (last (last_refill \<lparr> tokens = 9, last_refill = t0 \<rparr> # ts) - last_refill \<lparr> tokens = 9, last_refill = t0 \<rparr>)"
    by (rule burst_aux[OF p]) (use assms in simp_all)
  then obtain rl' b' where r: "requests rl1 c ts = (replicate (length ts) True, rl')" "burst_size rl' = 10"
           "tokens_per_second rl' = 1" "buckets rl' c = Some b'"
           "last_refill b' = last (t0 # ts)"
           "9 - real (length ts) \<le> tokens b'"
           "tokens b' \<le> 9 - real (length ts) + (last (t0 # ts) - t0)"
    by auto
  have "requests (RateLimiter_init 60 10) c (t0 # ts) = (replicate (Suc (length ts)) True, rl')"
    using first_request[of c t0] r(1) by (simp add: rl1_def)
  then show ?thesis using r by blast
qed

text \<open>
  Claim C7. A limiter of 60 requests per minute and burst 10 that has no bucket yet for a
  client (the first request creates a full one) grants the first ten of eleven requests
  that arrive within less than a second and rejects the eleventh; a request one second
  or more after the rejection is granted. Each grant takes exactly one token: after
  \<open>k\<close> requests at one instant, \<open>k\<close> from 1 to 10, the bucket holds \<open>10 - k\<close> tokens.
\<close>

theorem token_bucket_burst:
  assumes "length ts = 11" and "sorted ts" and "last ts - hd ts < 1" and "last ts + 1 \<le> t'"
  shows "fst (requests (RateLimiter_init 60 10) c (ts @ [t'])) = replicate 10 True @ [False, True]
       \<and> (\<forall>k t. 1 \<le> k \<and> k \<le> 10 \<longrightarrow>
            map_option tokens (buckets (snd (requests (RateLimiter_init 60 10) c (replicate k t))) c)
              = Some (10 - real k))"
proof
  obtain t0 rest where ts: "ts = t0 # rest" using assms(1) by (cases ts) auto
  have "rest \<noteq> []" using assms(1) ts by auto
  then obtain mid t10 where rest: "rest = mid @ [t10]" by (metis rev_exhaust)
  have lm: "length mid = 9" using assms(1) ts rest by simp
  have s1: "sorted (t0 # mid)" using assms(2) unfolding ts rest by (simp add: sorted_append)
  have le10: "last (t0 # mid) \<le> t10" using assms(2) unfolding ts rest
    by (cases mid rule: rev_cases) (auto simp: sorted_append)
  have span: "t10 - t0 < 1" using assms(3) unfolding ts rest by simp
  have t': "t10 + 1 \<le> t'" using assms(4) unfolding ts rest by simp
  from burst_from_full[OF s1, of c] lm obtain rl10 b10 where
    r: "requests (RateLimiter_init 60 10) c (t0 # mid) = (replicate 10 True, rl10)"
       "burst_size rl10 = 10" "tokens_per_second rl10 = 1" "buckets rl10 c = Some b10"
       "last_refill b10 = last (t0 # mid)" "0 \<le> tokens b10" "tokens b10 \<le> last (t0 # mid) - t0"
    by auto
  define y where "y = min 10 (tokens b10 + (t10 - last_refill b10))"
  have y: "0 \<le> y" "y < 1" using r(5,6,7) le10 span by (auto simp: y_def)
  define b11 where "b11 = \<lparr> tokens = y, last_refill = t10 \<rparr>"
  define rl11 where "rl11 = rl10\<lparr>buckets := (buckets rl10)(c \<mapsto> b11)\<rparr>"
  have e11: "is_allowed rl10 c t10 = ((False, Rejected 0 (t10 + 1) 1), rl11)"
    using r(2,3,4) y unfolding y_def b11_def rl11_def
    by (simp add: is_allowed_def Let_def)
  have e12: "fst (fst (is_allowed rl11 c t'))"
    using r(2,3) y t' unfolding rl11_def b11_def
    by (simp add: is_allowed_def Let_def)
  obtain i12 rl12 where e12': "is_allowed rl11 c t' = ((True, i12), rl12)"
    using e12 by (cases "is_allowed rl11 c t'") auto
  have two: "fst (requests rl10 c [t10, t']) = [False, True]"
    using e11 e12' by simp
  have "ts @ [t'] = (t0 # mid) @ [t10, t']" by (simp add: ts rest)
  then have "fst (requests (RateLimiter_init 60 10) c (ts @ [t']))
      = fst (requests (RateLimiter_init 60 10) c (t0 # mid))
        @ fst (requests (snd (requests (RateLimiter_init 60 10) c (t0 # mid))) c [t10, t'])"
    by (simp only: requests_append fst_conv)
  also have "\<dots> = replicate 10 True @ [False, True]"
    by (simp only: r(1) fst_conv snd_conv two)
  finally show "fst (requests (RateLimiter_init 60 10) c (ts @ [t'])) = replicate 10 True @ [False, True]" .
next
  show "\<forall>k t. 1 \<le> k \<and> k \<le> 10 \<longrightarrow>
            map_option tokens (buckets (snd (requests (RateLimiter_init 60 10) c (replicate k t))) c)
              = Some (10 - real k)"
  proof (intro allI impI)
    fix k :: nat and t :: real
    assume k: "1 \<le> k \<and> k \<le> 10"
    then obtain j where j: "k = Suc j" "j \<le> 9" by (cases k) auto
    have s: "sorted (t # replicate j t)" by (simp add: sorted_replicate)
    have "last (t # replicate j t) = t" by (cases j) simp_all
    with burst_from_full[OF s, of c] j obtain rl' b' where
      "requests (RateLimiter_init 60 10) c (t # replicate j t) = (replicate (Suc j) True, rl')"
      "buckets rl' c = Some b'" "9 - real j \<le> tokens b'" "tokens b' \<le> 9 - real j"
      by auto
    then show "map_option tokens (buckets (snd (requests (RateLimiter_init 60 10) c (replicate k t))) c)
              = Some (10 - real k)"
      using j by simp
  qed
qed

theorem token_bucket_burst_witness:
  "length [0, 0.01, 0.02, 0.03, 0.04, 0.05, 0.06, 0.07, 0.08, 0.09, 0.1 :: real] = 11
   \<and> sorted [0, 0.01, 0.02, 0.03, 0.04, 0.05, 0.06, 0.07, 0.08, 0.09, 0.1 :: real]
   \<and> fst (requests (RateLimiter_init 60 10) ''client''
        ([0, 0.01, 0.02, 0.03, 0.04, 0.05, 0.06, 0.07, 0.08, 0.09, 0.1] @ [1.1]))
      = replicate 10 True @ [False, True]"
  using token_bucket_burst[of "[0, 0.01, 0.02, 0.03, 0.04, 0.05, 0.06, 0.07, 0.08, 0.09, 0.1]" "1.1" "''client''"]
  by simp

subsection \<open>Result cache\<close>

lemma map_of_del_key: "map_of (del_key key d) key = None"
  by (induction d) (auto simp: del_key_def)

lemma length_del_key: "length (del_key key d) \<le> length d"
  by (simp add: del_key_def)

lemma length_move_to_end: "length (move_to_end key d) \<le> length d"
proof (cases "map_of d key")
  case None
  then show ?thesis by (simp add: move_to_end_def)
next
  case (Some v)
  then have "(key, v) \<in> set d" by (rule map_of_SomeD)
  then have "length (filter (\<lambda>kv. fst kv \<noteq> key) d) < length d"
    by (intro length_filter_less[of "(key, v)"]) auto
  then show ?thesis using Some by (simp add: move_to_end_def del_key_def)
qed

lemma length_fold_del_key: "length (fold del_key ks d) \<le> length d"
proof (induction ks arbitrary: d)
  case Nil
  then show ?case by simp
next
  case (Cons k ks)
  have "length (fold del_key ks (del_key k d)) \<le> length (del_key k d)" by (rule Cons.IH)
  also have "\<dots> \<le> length d" by (rule length_del_key)
  finally show ?case by simp
qed

lemma evict_oldest_cache:
  "max_size (evict_oldest s) = max_size s \<and> cache (evict_oldest s) = drop 1 (cache s)"
  by (cases "cache s") (simp_all add: evict_oldest_def)

lemma evict_over_capacity_result:
  assumes "evict_over_capacity svc = Some svc'"
  shows "int (length (cache svc')) \<le> max_size svc' \<and> max_size svc' = max_size svc \<and>
         (\<exists>n. cache svc' = drop n (cache svc))"
proof (rule evict_over_capacity.raw_induct
    [where P = "\<lambda>svc svc'. int (length (cache svc')) \<le> max_size svc' \<and>
                  max_size svc' = max_size svc \<and> (\<exists>n. cache svc' = drop n (cache svc))",
     OF _ assms])
  fix f and s s' :: "'a CacheService"
  assume IH: "\<And>s s'. f s = Some s' \<Longrightarrow>
                int (length (cache s')) \<le> max_size s' \<and> max_size s' = max_size s \<and>
                (\<exists>n. cache s' = drop n (cache s))"
    and st: "(if max_size s < int (length (cache s)) then f (evict_oldest s) else Some s) = Some s'"
  show "int (length (cache s')) \<le> max_size s' \<and> max_size s' = max_size s \<and>
        (\<exists>n. cache s' = drop n (cache s))"
  proof (cases "max_size s < int (length (cache s))")
    case True
    then have "f (evict_oldest s) = Some s'" using st by simp
    from IH[OF this] obtain n where
      "int (length (cache s')) \<le> max_size s'" "max_size s' = max_size (evict_oldest s)"
      "cache s' = drop n (cache (evict_oldest s))" by blast
    then show ?thesis using evict_oldest_cache[of s]
      by (auto intro: exI[of _ "n + 1"])
  next
    case False
    then have "s' = s" using st by simp
    then show ?thesis using False by (auto intro: exI[of _ 0])
  qed
qed

lemma evict_over_capacity_returns:
  assumes "0 \<le> max_size svc"
  shows "\<exists>svc' n. evict_over_capacity svc = Some svc' \<and> max_size svc' = max_size svc \<and>
           cache svc' = drop n (cache svc) \<and> int (length (cache svc')) \<le> max_size svc"
  using assms
proof (induction "length (cache svc)" arbitrary: svc)
  case 0
  then show ?case by (subst evict_over_capacity.simps) (auto intro: exI[of _ 0])
next
  case (Suc k)
  show ?case
  proof (cases "max_size svc < int (length (cache svc))")
    case False
    then show ?thesis
      by (subst evict_over_capacity.simps) (auto intro: exI[of _ 0])
  next
    case True
    define s1 where "s1 = evict_oldest svc"
    have ne: "cache svc \<noteq> []" using Suc.hyps(2) by auto
    have c1: "cache s1 = tl (cache svc)" "max_size s1 = max_size svc"
      using ne by (simp_all add: s1_def evict_oldest_def)
    have "k = length (cache s1)" using Suc.hyps(2) c1 by simp
    moreover have "0 \<le> max_size s1" using Suc.prems c1 by simp
    ultimately obtain svc' n where r: "evict_over_capacity s1 = Some svc'" "max_size svc' = max_size s1"
        "cache svc' = drop n (cache s1)" "int (length (cache svc')) \<le> max_size s1"
      using Suc.hyps(1)[of s1] by blast
    have "evict_over_capacity svc = Some svc'"
      using True r(1) by (subst evict_over_capacity.simps) (simp add: s1_def)
    moreover have "cache svc' = drop (Suc n) (cache svc)"
      using r(3) c1 by (simp add: drop_Suc)
    ultimately show ?thesis using r(2,4) c1
      by (intro exI[of _ svc'] exI[of _ "Suc n"]) simp
  qed
qed

lemma max_size_check_memory: "max_size (check_memory_usage mem svc) = max_size svc"
proof -
  have e: "max_size ((evict_oldest ^^ n) s) = max_size s" for n and s :: "'a CacheService"
    by (induction n) (simp_all add: evict_oldest_def)
  show ?thesis by (simp add: check_memory_usage_def Let_def e split: option.splits)
qed

lemma set_item_bound:
  assumes "set_item svc key v ttl now mem = Some (ok, svc')"
  shows "int (length (cache svc')) \<le> max_size svc'"
  using assms evict_over_capacity_result
  by (fastforce simp: set_item_def Let_def split: option.splits)

lemma set_item_returns:
  assumes "0 \<le> max_size svc"
  shows "\<exists>svc' n. set_item svc key v ttl now mem = Some (True, svc') \<and> max_size svc' = max_size svc \<and>
     int (length (cache svc')) \<le> max_size svc \<and>
     cache svc' = drop n (del_key key (cache (check_memory_usage mem svc)) @
        [(key, \<lparr> item_value = v, expires_at = now + (case ttl of None \<Rightarrow> default_ttl svc | Some t \<Rightarrow> t), created_at = now \<rparr>)])"
proof -
  define s1 where "s1 = check_memory_usage mem svc"
  have dt: "default_ttl s1 = default_ttl svc"
  proof -
    have e: "default_ttl ((evict_oldest ^^ n) s) = default_ttl s" for n and s :: "'a CacheService"
      by (induction n) (simp_all add: evict_oldest_def)
    show ?thesis by (simp add: s1_def check_memory_usage_def Let_def e split: option.splits)
  qed
  define item where "item = \<lparr> item_value = v, expires_at = now + (case ttl of None \<Rightarrow> default_ttl s1 | Some t \<Rightarrow> t), created_at = now \<rparr>"
  define s2 where "s2 = s1\<lparr>cache := del_key key (cache s1) @ [(key, item)]\<rparr>"
  have m2: "0 \<le> max_size s2" "max_size s2 = max_size svc"
    using assms by (simp_all add: s2_def s1_def max_size_check_memory)
  obtain s3 n where r: "evict_over_capacity s2 = Some s3" "max_size s3 = max_size s2"
      "cache s3 = drop n (cache s2)" "int (length (cache s3)) \<le> max_size s2"
    using evict_over_capacity_returns[OF m2(1)] by blast
  have "set_item svc key v ttl now mem = Some (True, s3\<lparr>size := length (cache s3)\<rparr>)"
    using r(1) unfolding s2_def item_def s1_def by (simp add: set_item_def Let_def)
  moreover have "cache s3 = drop n (del_key key (cache (check_memory_usage mem svc)) @
        [(key, \<lparr> item_value = v, expires_at = now + (case ttl of None \<Rightarrow> default_ttl svc | Some t \<Rightarrow> t), created_at = now \<rparr>)])"
    using r(3) dt unfolding s2_def item_def s1_def by (cases ttl) simp_all
  ultimately show ?thesis using r(2,4) m2
    by (intro exI[of _ "s3\<lparr>size := length (cache s3)\<rparr>"] exI[of _ n]) simp
qed





text \<open>
  Claim C8. A value that \<open>get\<close> returns comes from an entry that is not past its
  \<open>expires_at\<close>; a read of an entry past its \<open>expires_at\<close> is a miss and removes the
  entry. Whenever \<open>set\<close> returns, the cache holds at most \<open>max_size\<close> entries, and it
  does return for every \<open>max_size\<close> that is not negative. The other operations never
  add an entry.
\<close>

theorem cache_entry_invariant:
  "(fst (get svc key now) = Some x \<longrightarrow>
      (\<exists>item. map_of (cache svc) key = Some item \<and> item_value item = Some x \<and> now \<le> expires_at item))
   \<and> (map_of (cache svc) key = Some item \<and> now > expires_at item \<longrightarrow>
        fst (get svc key now) = None \<and> map_of (cache (snd (get svc key now))) key = None)
   \<and> (set_item svc key v ttl now mem = Some (ok, svc') \<longrightarrow> int (length (cache svc')) \<le> max_size svc')
   \<and> (0 \<le> max_size svc \<longrightarrow>
        (\<exists>svc'. set_item svc key v ttl now mem = Some (True, svc') \<and>
                max_size svc' = max_size svc \<and> int (length (cache svc')) \<le> max_size svc))
   \<and> length (cache (snd (get svc key now))) \<le> length (cache svc)
   \<and> length (cache (snd (delete svc key))) \<le> length (cache svc)
   \<and> length (cache (clear svc)) \<le> length (cache svc)
   \<and> length (cache (snd (cleanup_expired svc now))) \<le> length (cache svc)"
proof -
  have g1: "fst (get svc key now) = Some x \<longrightarrow>
      (\<exists>item. map_of (cache svc) key = Some item \<and> item_value item = Some x \<and> now \<le> expires_at item)"
    by (auto simp: get_def Let_def split: option.splits if_splits)
  have g2: "map_of (cache svc) key = Some item \<and> now > expires_at item \<longrightarrow>
        fst (get svc key now) = None \<and> map_of (cache (snd (get svc key now))) key = None"
    by (auto simp: get_def Let_def map_of_del_key)
  have s1: "set_item svc key v ttl now mem = Some (ok, svc') \<longrightarrow> int (length (cache svc')) \<le> max_size svc'"
    using set_item_bound by blast
  have s2: "0 \<le> max_size svc \<longrightarrow>
        (\<exists>svc'. set_item svc key v ttl now mem = Some (True, svc') \<and>
                max_size svc' = max_size svc \<and> int (length (cache svc')) \<le> max_size svc)"
    using set_item_returns[of svc key v ttl now mem] by blast
  have l1: "length (cache (snd (get svc key now))) \<le> length (cache svc)"
    by (auto simp: get_def Let_def length_del_key length_move_to_end split: option.splits)
  have l2: "length (cache (snd (delete svc key))) \<le> length (cache svc)"
    by (auto simp: delete_def Let_def length_del_key)
  have l3: "length (cache (clear svc)) \<le> length (cache svc)"
    by (simp add: clear_def)
  have l4: "length (cache (snd (cleanup_expired svc now))) \<le> length (cache svc)"
    by (simp add: cleanup_expired_def Let_def length_fold_del_key)
  show ?thesis using g1 g2 s1 s2 l1 l2 l3 l4 by blast
qed

theorem cache_entry_invariant_witness:
  "map_of (cache stale_cache) ''k'' = Some \<lparr> item_value = Some 7, expires_at = 10, created_at = 0 \<rparr>
   \<and> fst (get stale_cache ''k'' 11) = None
   \<and> map_of (cache (snd (get stale_cache ''k'' 11))) ''k'' = None
   \<and> 0 \<le> max_size stale_cache
   \<and> (\<exists>svc'. set_item stale_cache ''j'' (Some 8) None 5 None = Some (True, svc')
              \<and> int (length (cache svc')) \<le> 1)"
proof -
  have m: "map_of (cache stale_cache) ''k'' =
             Some \<lparr> item_value = Some 7, expires_at = 10, created_at = 0 \<rparr>"
    by (simp add: stale_cache_def CacheService_init_def)
  have x: "expires_at \<lparr> item_value = Some (7::nat), expires_at = 10, created_at = 0 \<rparr> < 11"
    by simp
  have g: "fst (get stale_cache ''k'' 11) = None
           \<and> map_of (cache (snd (get stale_cache ''k'' 11))) ''k'' = None"
    using cache_entry_invariant
      [where svc = stale_cache and key = "''k''" and now = 11
         and item = "\<lparr> item_value = Some 7, expires_at = 10, created_at = 0 \<rparr>",
       THEN conjunct2, THEN conjunct1] m x
    by blast
  have mx: "0 \<le> max_size stale_cache" "max_size stale_cache = 1"
    by (simp_all add: stale_cache_def CacheService_init_def)
  have s: "\<exists>svc'. set_item stale_cache ''j'' (Some 8) None 5 None = Some (True, svc')
              \<and> max_size svc' = max_size stale_cache
              \<and> int (length (cache svc')) \<le> max_size stale_cache"
    using cache_entry_invariant
      [where svc = stale_cache and key = "''j''" and now = 5 and v = "Some 8" and ttl = None
         and mem = None,
       THEN conjunct2, THEN conjunct2, THEN conjunct2, THEN conjunct1] mx(1)
    by blast
  show ?thesis using m g mx s by auto
qed



subsection \<open>Text chunker\<close>

text \<open>
  Claim C1. A chunker of chunk size 50 and overlap 5 is a valid configuration. On the
  76 characters of the refund policy its first chunk is shortened to the sentence end and
  holds the span from 0 to 42, while the next window still starts at 50 - 5 = 45. The
  spans of the three chunks leave positions 42 to 44 out: the letters "Ref" are in no
  chunk, so the chunks do not reconstruct the text.
\<close>

theorem sentence_break_drops_text:
  "TextChunker_init 1000 200 (Some 50) (Some 5) = Inr (50, 5)
   \<and> length refund_policy = 76
   \<and> map_option (map content) (create_chunks 50 5 uuids_zeros refund_policy ''doc'' no_metadata)
       = Some [''Please send all items back within 7 days.'',
               ''unds exclude the shipping fees.'', ''fees.'']
   \<and> map_option (map chunk_span) (create_chunks 50 5 uuids_zeros refund_policy ''doc'' no_metadata)
       = Some [(0, 42), (45, 76), (71, 76)]
   \<and> map_option (\<lambda>chunks. map (covered chunks) [41, 42, 43, 44, 45])
         (create_chunks 50 5 uuids_zeros refund_policy ''doc'' no_metadata)
       = Some [True, False, False, False, True]"
  by code_simp

lemma covered_append: "covered chunks p \<Longrightarrow> covered (chunks @ extra) p"
  by (auto simp: covered_def)

lemma match_sentence_ending_bounds:
  assumes "match_sentence_ending s = Some k"
  shows "2 \<le> k \<and> k \<le> length s"
proof -
  define p where "p = takeWhile is_sentence_end s"
  define w where "w = takeWhile isspace (dropWhile is_sentence_end s)"
  have k: "k = length p + length w" "p \<noteq> []" "w \<noteq> []"
    using assms by (auto simp: match_sentence_ending_def Let_def p_def w_def split: if_splits)
  have "length w \<le> length (dropWhile is_sentence_end s)"
    unfolding w_def by (rule length_takeWhile_le)
  moreover have "length p + length (dropWhile is_sentence_end s) = length s"
    unfolding p_def by (metis length_append takeWhile_dropWhile_id)
  moreover have "1 \<le> length p" "1 \<le> length w" using k(2,3) by (simp_all add: Suc_leI)
  ultimately show ?thesis using k(1) by linarith
qed

lemma finditer_ends_bounds:
  "k \<in> set (finditer_ends pos s) \<Longrightarrow> pos + 2 \<le> k \<and> k \<le> pos + length s"
proof (induction pos s arbitrary: k rule: finditer_ends.induct)
  case (1 pos s)
  show ?case
  proof (cases "s = []")
    case True
    then show ?thesis using 1(3) by (simp add: finditer_ends.simps)
  next
    case False
    show ?thesis
    proof (cases "match_sentence_ending s")
      case None
      then have "k \<in> set (finditer_ends (pos + 1) (tl s))"
        using 1(3) False by (simp add: finditer_ends.simps[of pos s])
      from 1(1)[OF False None this] show ?thesis using False by (cases s) simp_all
    next
      case (Some j)
      have j: "2 \<le> j \<and> j \<le> length s" using Some by (rule match_sentence_ending_bounds)
      have "k = pos + j \<or> k \<in> set (finditer_ends (pos + j) (drop j s))"
        using 1(3) False Some by (simp add: finditer_ends.simps[of pos s])
      then show ?thesis
      proof
        assume "k = pos + j" then show ?thesis using j by simp
      next
        assume "k \<in> set (finditer_ends (pos + j) (drop j s))"
        from 1(2)[OF False Some this] show ?thesis using j by simp
      qed
    qed
  qed
qed



lemma slice_length:
  "0 \<le> a \<Longrightarrow> a \<le> b \<Longrightarrow> b \<le> int (length s) \<Longrightarrow> length (slice s a b) = nat (b - a)"
  by (simp add: slice_def slice_index_def Let_def)

lemma break_length:
  assumes "0 \<le> start" "start \<le> e" "e \<le> int (length tx)"
  shows "int (length (break_at_sentence_boundary (slice tx start e) tx start e)) \<le> e - start
       \<and> min (e - start) (int ((4 * nat (e - start)) div 5) + 2)
           \<le> int (length (break_at_sentence_boundary (slice tx start e) tx start e))"
proof -
  define L where "L = nat (e - start)"
  have len: "length (slice tx start e) = L" using assms by (simp add: slice_length L_def)
  have Le: "int L = e - start" using assms by (simp add: L_def)
  define ss where "ss = (4 * L) div 5"
  define ms where "ms = finditer_ends 0 (drop ss (slice tx start e))"
  have ssL: "ss \<le> L" by (simp add: ss_def)
  show ?thesis
  proof (cases "ms = []")
    case True
    then have "break_at_sentence_boundary (slice tx start e) tx start e = slice tx start e"
      by (simp add: break_at_sentence_boundary_def Let_def len ss_def ms_def)
    then show ?thesis using len Le by simp
  next
    case False
    then have "last ms \<in> set ms" by simp
    then have b: "2 \<le> last ms" "last ms \<le> L - ss"
      using finditer_ends_bounds[of "last ms" 0 "drop ss (slice tx start e)"] len
      by (simp_all add: ms_def)
    have eq: "break_at_sentence_boundary (slice tx start e) tx start e
            = slice tx start (start + int ss + int (last ms))"
      using False by (simp add: break_at_sentence_boundary_def Let_def len ss_def ms_def)
    have le: "ss + last ms \<le> L" using b(2) ssL by linarith
    then have "start + int ss + int (last ms) \<le> e" using Le by linarith
    then have "length (slice tx start (start + int ss + int (last ms))) = nat (int ss + int (last ms))"
      using assms by (subst slice_length) simp_all
    then have l: "int (length (slice tx start (start + int ss + int (last ms)))) = int ss + int (last ms)"
      by simp
    have F1: "int ss + int (last ms) \<le> e - start" using le Le by linarith
    have F2: "min (e - start) (int ss + 2) \<le> int ss + int (last ms)" using b(1) by simp
    show ?thesis unfolding eq l using F1 F2 unfolding ss_def L_def by simp
  qed
qed


lemma span_create_single_chunk:
  "chunk_span (create_single_chunk t d i md (Some a) b u) = (a, a + int (length t))"
  by (simp add: chunk_span_def create_single_chunk_def Let_def)

lemma chunk_loop_covers:
  assumes cfg: "0 < cs" "0 \<le> ov" "ov < cs" "cs - ov \<le> int ((4 * nat cs) div 5) + 2"
  shows "0 \<le> start \<Longrightarrow> (\<forall>p. 0 \<le> p \<and> p < start \<longrightarrow> covered chunks p) \<Longrightarrow>
         \<exists>r. chunk_loop cs ov u tx doc md start idx chunks = Some r \<and>
             (\<forall>p. 0 \<le> p \<and> p < int (length tx) \<longrightarrow> covered (fst r) p)"
proof (induction "nat (int (length tx) - start)" arbitrary: start idx chunks rule: less_induct)
  case less
  define n where "n = int (length tx)"
  show ?case
  proof (cases "start < n")
    case False
    then have "chunk_loop cs ov u tx doc md start idx chunks = Some (chunks, start, idx)"
      by (subst chunk_loop.simps) (simp add: Let_def n_def)
    then show ?thesis using less.prems(2) False by (auto simp: n_def)
  next
    case True
    define e where "e = min (start + cs) n"
    define ct where "ct = (if e < n then break_at_sentence_boundary (slice tx start e) tx start e
       else slice tx start e)"
    define c where "c = create_single_chunk ct doc idx md (Some start) (Some e) (u idx)"
    have se: "start \<le> e" "e \<le> n" using True cfg(1) by (simp_all add: e_def)
    have unfold: "chunk_loop cs ov u tx doc md start idx chunks =
       (if n - ov \<le> e - ov then Some (chunks @ [c], e - ov, idx + 1)
        else chunk_loop cs ov u tx doc md (e - ov) (idx + 1) (chunks @ [c]))"
      using True by (subst chunk_loop.simps) (simp add: Let_def e_def c_def ct_def n_def)
    have span: "chunk_span c = (start, start + int (length ct))"
      unfolding c_def by (rule span_create_single_chunk)
    show ?thesis
    proof (cases "n - ov \<le> e - ov")
      case last: True
      then have en: "e = n" using se by simp
      then have "ct = slice tx start e" by (simp add: ct_def)
      then have "int (length ct) = n - start"
        using less.prems(1) se en by (simp add: slice_length n_def)
      then have "chunk_span c = (start, n)" using span by simp
      then have "\<forall>p. start \<le> p \<and> p < n \<longrightarrow> covered (chunks @ [c]) p"
        by (auto simp: covered_def)
      moreover have "\<forall>p. 0 \<le> p \<and> p < start \<longrightarrow> covered (chunks @ [c]) p"
        using less.prems(2) covered_append by blast
      ultimately have "\<forall>p. 0 \<le> p \<and> p < n \<longrightarrow> covered (chunks @ [c]) p"
        by (metis not_le_imp_less)
      then show ?thesis using unfold last by (simp add: n_def)
    next
      case loop: False
      then have ecs: "e = start + cs" "e < n" using se by (auto simp: e_def min_def split: if_splits)
      have bl: "min (e - start) (int ((4 * nat (e - start)) div 5) + 2) \<le> int (length ct)"
        using break_length[OF less.prems(1) se(1), of tx] se(2) ecs(2)
        by (simp add: ct_def n_def)
      have "e - start = cs" using ecs by simp
      then have "cs - ov \<le> int (length ct)" using bl cfg(2,4) by simp
      then have reach: "e - ov \<le> start + int (length ct)" using ecs by simp
      have "\<forall>p. start \<le> p \<and> p < e - ov \<longrightarrow> covered (chunks @ [c]) p"
        using span reach by (auto simp: covered_def)
      moreover have "\<forall>p. 0 \<le> p \<and> p < start \<longrightarrow> covered (chunks @ [c]) p"
        using less.prems(2) covered_append by blast
      ultimately have cov: "\<forall>p. 0 \<le> p \<and> p < e - ov \<longrightarrow> covered (chunks @ [c]) p"
        by (metis not_le_imp_less)
      have m: "nat (int (length tx) - (e - ov)) < nat (int (length tx) - start)"
        using ecs cfg True by (simp add: n_def)
      have pos: "0 \<le> e - ov" using ecs cfg less.prems(1) by simp
      from less.hyps[OF m pos cov, of "idx + 1"] show ?thesis using unfold loop by simp
    qed
  qed
qed


text \<open>
  The gap needs a small overlap: the shortened chunk still holds four fifths of the window
  and the two characters of the shortest match, so when the overlap is at least the rest
  of the window every position of the text lies in a chunk. The default settings, 1000
  and 200, are such a configuration.
\<close>

lemma create_chunks_covers:
  assumes "0 < cs" "0 \<le> ov" "ov < cs" "cs - ov \<le> int ((4 * nat cs) div 5) + 2"
  shows "\<exists>chunks. create_chunks cs ov u tx doc md = Some chunks \<and>
           (\<forall>p. 0 \<le> p \<and> p < int (length tx) \<longrightarrow> covered chunks p)"
proof (cases "int (length tx) \<le> cs")
  case True
  have "chunk_span (create_single_chunk tx doc 0 md None None (u 0)) = (0, int (length tx))"
    by (simp add: chunk_span_def create_single_chunk_def Let_def)
  then show ?thesis using True by (simp add: create_chunks_def covered_def)
next
  case False
  have "\<forall>p. 0 \<le> p \<and> p < (0::int) \<longrightarrow> covered [] p" by auto
  from chunk_loop_covers[OF assms _ this, of u tx doc md 0] obtain r where
    r: "chunk_loop cs ov u tx doc md 0 0 [] = Some r"
       "\<forall>p. 0 \<le> p \<and> p < int (length tx) \<longrightarrow> covered (fst r) p"
    by auto
  obtain ch s i where rr: "r = (ch, s, i)" by (cases r)
  have "create_chunks cs ov u tx doc md = Some ch \<or>
        (\<exists>c. create_chunks cs ov u tx doc md = Some (ch @ [c]))"
    using False r(1) rr by (simp add: create_chunks_def Let_def)
  then show ?thesis using r(2) rr covered_append by auto
qed

lemma default_settings_cover:
  "\<exists>chunks. create_chunks 1000 200 u tx doc md = Some chunks \<and>
     (\<forall>p. 0 \<le> p \<and> p < int (length tx) \<longrightarrow> covered chunks p)"
  by (rule create_chunks_covers) simp_all

text \<open>
  Claim C2, as stated, fails: two runs on the same text, configuration and document id
  whose random draws differ give different chunk ids.
\<close>

theorem chunk_ids_differ_between_runs:
  "map_option (map chunk_id) (create_chunks 1000 200 uuids_zeros refund_policy ''doc'' no_metadata)
     = Some [''doc_chunk_0_00000000'']
   \<and> map_option (map chunk_id) (create_chunks 1000 200 uuids_effs refund_policy ''doc'' no_metadata)
     = Some [''doc_chunk_0_ffffffff'']"
  by code_simp

lemma erase_id_create_single_chunk:
  "erase_id (create_single_chunk t d i md a b u1) = erase_id (create_single_chunk t d i md a b u2)"
  by (simp add: erase_id_def create_single_chunk_def Let_def)

lemma id_of_create_single_chunk:
  "chunk_id (create_single_chunk t d i md a b (u i)) = id_of d u (create_single_chunk t d i md a b (u i))"
  by (simp add: id_of_def create_single_chunk_def Let_def)

lemma chunk_loop_erase_id:
  assumes "chunk_loop cs ov u1 tx doc md start idx chunks1 = Some r"
  shows "\<forall>chunks2. map erase_id chunks1 = map erase_id chunks2 \<longrightarrow>
     (\<exists>r2. chunk_loop cs ov u2 tx doc md start idx chunks2 = Some (r2, snd r) \<and> map erase_id (fst r) = map erase_id r2)"
proof (rule chunk_loop.raw_induct[where P = "\<lambda>cs ov u1 tx doc md start idx chunks1 r. \<forall>chunks2. map erase_id chunks1 = map erase_id chunks2 \<longrightarrow>
     (\<exists>r2. chunk_loop cs ov u2 tx doc md start idx chunks2 = Some (r2, snd r) \<and> map erase_id (fst r) = map erase_id r2)", OF _ assms])
  fix f cs ov u1 tx doc md start idx chunks1 r
  assume IH: "\<And>cs ov u1 tx doc md start idx chunks1 r. f cs ov u1 tx doc md start idx chunks1 = Some r \<Longrightarrow>
     \<forall>chunks2. map erase_id chunks1 = map erase_id chunks2 \<longrightarrow>
     (\<exists>r2. chunk_loop cs ov u2 tx doc md start idx chunks2 = Some (r2, snd r) \<and> map erase_id (fst r) = map erase_id r2)"
  and step: "(let text_length = int (length tx)
      in if start < text_length
         then let end = min (start + cs) text_length;
                  chunk_text0 = slice tx start end;
                  chunk_text =
                    if end < text_length
                    then break_at_sentence_boundary chunk_text0 tx start
                          end
                    else chunk_text0;
                  c = create_single_chunk chunk_text doc idx md
                       (Some start) (Some end) (u1 idx);
                  chunks' = chunks1 @ [c]; start' = end - ov;
                  idx' = idx + 1
              in if text_length - ov \<le> start'
                 then Some (chunks', start', idx')
                 else f cs ov u1 tx
                       doc md start' idx' chunks'
         else Some (chunks1, start, idx)) =
     Some r"
  define e where "e = min (start + cs) (int (length tx))"
  define ct where "ct = (if e < int (length tx) then break_at_sentence_boundary (slice tx start e) tx start e
       else slice tx start e)"
  define c1 where "c1 = create_single_chunk ct doc idx md (Some start) (Some e) (u1 idx)"
  define c2 where "c2 = create_single_chunk ct doc idx md (Some start) (Some e) (u2 idx)"
  have ce: "erase_id c1 = erase_id c2"
    unfolding c1_def c2_def by (rule erase_id_create_single_chunk)
  have step': "(if start < int (length tx)
         then if int (length tx) - ov \<le> e - ov
              then Some (chunks1 @ [c1], e - ov, idx + 1)
              else f cs ov u1 tx doc md (e - ov) (idx + 1) (chunks1 @ [c1])
         else Some (chunks1, start, idx)) = Some r"
    using step unfolding Let_def e_def c1_def ct_def .
  show "\<forall>chunks2. map erase_id chunks1 = map erase_id chunks2 \<longrightarrow>
     (\<exists>r2. chunk_loop cs ov u2 tx doc md start idx chunks2 = Some (r2, snd r) \<and> map erase_id (fst r) = map erase_id r2)"
  proof (intro allI impI)
    fix chunks2 assume eq: "map erase_id chunks1 = map erase_id chunks2"
    then have eq': "map erase_id (chunks1 @ [c1]) = map erase_id (chunks2 @ [c2])" using ce by simp
    have unfold2: "chunk_loop cs ov u2 tx doc md start idx chunks2 =
       (if start < int (length tx)
         then if int (length tx) - ov \<le> e - ov
              then Some (chunks2 @ [c2], e - ov, idx + 1)
              else chunk_loop cs ov u2 tx doc md (e - ov) (idx + 1) (chunks2 @ [c2])
         else Some (chunks2, start, idx))"
      by (subst chunk_loop.simps) (simp add: Let_def e_def c2_def ct_def)
    consider (stop) "\<not> start < int (length tx)"
      | (last) "start < int (length tx)" "int (length tx) - ov \<le> e - ov"
      | (loop) "start < int (length tx)" "\<not> int (length tx) - ov \<le> e - ov"
      by blast
    then show "\<exists>r2. chunk_loop cs ov u2 tx doc md start idx chunks2 = Some (r2, snd r) \<and> map erase_id (fst r) = map erase_id r2"
    proof cases
      case stop
      then have "r = (chunks1, start, idx)" using step' by simp
      then show ?thesis using stop eq unfold2 by simp
    next
      case last
      then have "r = (chunks1 @ [c1], e - ov, idx + 1)" using step' by simp
      then show ?thesis using last eq' unfold2 by simp
    next
      case loop
      then have "f cs ov u1 tx doc md (e - ov) (idx + 1) (chunks1 @ [c1]) = Some r" using step' by simp
      from IH[OF this] eq' obtain r2 where
        "chunk_loop cs ov u2 tx doc md (e - ov) (idx + 1) (chunks2 @ [c2]) = Some (r2, snd r)"
        "map erase_id (fst r) = map erase_id r2" by blast
      then show ?thesis using loop unfold2 by simp
    qed
  qed
qed

lemma chunk_loop_erase_id_eq:
  "map_option (\<lambda>r. (map erase_id (fst r), snd r)) (chunk_loop cs ov u1 tx doc md start idx [])
   = map_option (\<lambda>r. (map erase_id (fst r), snd r)) (chunk_loop cs ov u2 tx doc md start idx [])"
proof (cases "chunk_loop cs ov u1 tx doc md start idx []")
  case None
  show ?thesis
  proof (cases "chunk_loop cs ov u2 tx doc md start idx []")
    case N2: None
    then show ?thesis using None by simp
  next
    case (Some r)
    from chunk_loop_erase_id[OF Some, of u1] have "\<exists>r2. chunk_loop cs ov u1 tx doc md start idx [] = Some r2"
      by auto
    then show ?thesis using None by simp
  qed
next
  case (Some r)
  from chunk_loop_erase_id[OF Some, of u2] obtain r2 where
    "chunk_loop cs ov u2 tx doc md start idx [] = Some (r2, snd r)" "map erase_id (fst r) = map erase_id r2"
    by auto
  then show ?thesis using Some by simp
qed

lemma chunk_loop_ids:
  assumes "chunk_loop cs ov u tx doc md start idx chunks = Some r"
  shows "(\<forall>c\<in>set chunks. chunk_id c = id_of doc u c) \<longrightarrow> (\<forall>c\<in>set (fst r). chunk_id c = id_of doc u c)"
proof (rule chunk_loop.raw_induct[where P = "\<lambda>cs ov u tx doc md start idx chunks r.
     (\<forall>c\<in>set chunks. chunk_id c = id_of doc u c) \<longrightarrow> (\<forall>c\<in>set (fst r). chunk_id c = id_of doc u c)", OF _ assms])
  fix f cs ov u tx doc md start idx chunks r
  assume IH: "\<And>cs ov u tx doc md start idx chunks r. f cs ov u tx doc md start idx chunks = Some r \<Longrightarrow>
     (\<forall>c\<in>set chunks. chunk_id c = id_of doc u c) \<longrightarrow> (\<forall>c\<in>set (fst r). chunk_id c = id_of doc u c)"
  and step: "(let text_length = int (length tx)
      in if start < text_length
         then let end = min (start + cs) text_length;
                  chunk_text0 = slice tx start end;
                  chunk_text =
                    if end < text_length
                    then break_at_sentence_boundary chunk_text0 tx start
                          end
                    else chunk_text0;
                  c = create_single_chunk chunk_text doc idx md
                       (Some start) (Some end) (u idx);
                  chunks' = chunks @ [c]; start' = end - ov;
                  idx' = idx + 1
              in if text_length - ov \<le> start'
                 then Some (chunks', start', idx')
                 else f cs ov u tx
                       doc md start' idx' chunks'
         else Some (chunks, start, idx)) =
     Some r"
  define e where "e = min (start + cs) (int (length tx))"
  define c where "c = create_single_chunk
      (if e < int (length tx) then break_at_sentence_boundary (slice tx start e) tx start e
       else slice tx start e) doc idx md (Some start) (Some e) (u idx)"
  have cid: "chunk_id c = id_of doc u c"
    by (simp add: c_def id_of_def create_single_chunk_def Let_def)
  have step': "(if start < int (length tx)
         then if int (length tx) - ov \<le> e - ov
              then Some (chunks @ [c], e - ov, idx + 1)
              else f cs ov u tx doc md (e - ov) (idx + 1) (chunks @ [c])
         else Some (chunks, start, idx)) = Some r"
    using step unfolding Let_def e_def c_def .
  show "(\<forall>c\<in>set chunks. chunk_id c = id_of doc u c) \<longrightarrow> (\<forall>c\<in>set (fst r). chunk_id c = id_of doc u c)"
  proof
    assume a: "\<forall>c\<in>set chunks. chunk_id c = id_of doc u c"
    then have a': "\<forall>x\<in>set (chunks @ [c]). chunk_id x = id_of doc u x" using cid by simp
    consider (stop) "\<not> start < int (length tx)"
      | (last) "start < int (length tx)" "int (length tx) - ov \<le> e - ov"
      | (loop) "start < int (length tx)" "\<not> int (length tx) - ov \<le> e - ov"
      by blast
    then show "\<forall>c\<in>set (fst r). chunk_id c = id_of doc u c"
    proof cases
      case stop
      then have "r = (chunks, start, idx)" using step' by simp
      then show ?thesis using a by simp
    next
      case last
      then have "r = (chunks @ [c], e - ov, idx + 1)" using step' by simp
      then show ?thesis using a' by simp
    next
      case loop
      then have "f cs ov u tx doc md (e - ov) (idx + 1) (chunks @ [c]) = Some r" using step' by simp
      from IH[OF this] a' show ?thesis by blast
    qed
  qed
qed

lemma chunk_loop_returns:
  assumes "0 < cs" "0 \<le> ov" "ov < cs" 
  shows "\<exists>r. chunk_loop cs ov u tx doc md start idx chunks = Some r"
proof (induction "nat (int (length tx) - start)" arbitrary: start idx chunks rule: less_induct)
  case less
  show ?case
  proof (cases "start < int (length tx)")
    case False
    then show ?thesis by (subst chunk_loop.simps) (simp add: Let_def)
  next
    case True
    define e where "e = min (start + cs) (int (length tx))"
    show ?thesis
    proof (cases "int (length tx) - ov \<le> e - ov")
      case T2: True
      then show ?thesis using True
        by (subst chunk_loop.simps) (simp add: Let_def e_def)
    next
      case F2: False
      then have "e = start + cs" by (auto simp: e_def min_def split: if_splits)
      then have "nat (int (length tx) - (e - ov)) < nat (int (length tx) - start)"
        using assms True by simp
      from less[OF this] have "\<exists>r. chunk_loop cs ov u tx doc md (e - ov) idx' chunks' = Some r" for idx' chunks'
        by blast
      then show ?thesis using True F2
        by (subst chunk_loop.simps) (simp add: Let_def e_def[symmetric])
    qed
  qed
qed

lemma create_chunks_erase_id:
  "map_option (map erase_id) (create_chunks cs ov u1 tx doc md)
     = map_option (map erase_id) (create_chunks cs ov u2 tx doc md)"
proof (cases "int (length tx) \<le> cs")
  case True
  then show ?thesis
    by (simp add: create_chunks_def erase_id_create_single_chunk[of _ _ _ _ _ _ "u1 0" "u2 0"])
next
  case False
  show ?thesis
  proof (cases "chunk_loop cs ov u1 tx doc md 0 0 []")
    case None
    then have "chunk_loop cs ov u2 tx doc md 0 0 [] = None"
      using chunk_loop_erase_id_eq[of cs ov u1 tx doc md 0 0 u2] by simp
    then show ?thesis using None False by (simp add: create_chunks_def)
  next
    case (Some r)
    obtain ch1 s i where r: "r = (ch1, s, i)" by (cases r)
    from chunk_loop_erase_id[OF Some, of u2] obtain ch2 where
      l2: "chunk_loop cs ov u2 tx doc md 0 0 [] = Some (ch2, s, i)"
      and e: "map erase_id ch1 = map erase_id ch2"
      using r by auto
    show ?thesis using False Some r l2 e
      by (simp add: create_chunks_def Let_def
            erase_id_create_single_chunk[of _ _ _ _ _ _ "u1 i" "u2 i"])
  qed
qed

lemma create_chunks_ids:
  "map_option (map chunk_id) (create_chunks cs ov u tx doc md)
     = map_option (map (id_of doc u)) (create_chunks cs ov u tx doc md)"
proof -
  have "\<forall>c\<in>set chunks. chunk_id c = id_of doc u c"
    if h: "create_chunks cs ov u tx doc md = Some chunks" for chunks
  proof (cases "int (length tx) \<le> cs")
    case True
    then have "chunks = [create_single_chunk tx doc 0 md None None (u 0)]"
      using h by (simp add: create_chunks_def)
    then show ?thesis using id_of_create_single_chunk[of tx doc 0 md None None u] by simp
  next
    case False
    then obtain ch s i where l: "chunk_loop cs ov u tx doc md 0 0 [] = Some (ch, s, i)"
      using h by (auto simp: create_chunks_def Let_def split: option.splits)
    from chunk_loop_ids[OF l] have a: "\<forall>c\<in>set ch. chunk_id c = id_of doc u c" by simp
    have "chunks = ch \<or> chunks = ch @ [create_single_chunk (slice_from tx s) doc i md (Some s) (Some (int (length tx))) (u i)]"
      using h False l by (auto simp: create_chunks_def Let_def split: if_splits)
    then show ?thesis
      using a id_of_create_single_chunk[of "slice_from tx s" doc i md "Some s" "Some (int (length tx))" u]
      by auto
  qed
  then show ?thesis by (cases "create_chunks cs ov u tx doc md") auto
qed

lemma create_chunks_returns:
  assumes "0 < cs" "0 \<le> ov" "ov < cs"
  shows "create_chunks cs ov u tx doc md \<noteq> None"
proof -
  obtain r where "chunk_loop cs ov u tx doc md 0 0 [] = Some r"
    using chunk_loop_returns[OF assms] by blast
  then show ?thesis by (cases r) (simp add: create_chunks_def Let_def)
qed

text \<open>
  Claim C2, amended. Everything of the chunks but their ids (boundaries, contents,
  positions, indices and counts) is the same in any two runs on the same text,
  configuration, document id and metadata, whatever the random draws. The id of a chunk
  is the document id, \<open>_chunk_\<close>, the chunk's index, \<open>_\<close> and the eight random
  hexadecimal digits drawn for it, so two runs agree on the ids exactly as far as their
  draws agree. For every valid configuration the chunking returns.
\<close>

theorem chunking_deterministic_up_to_uuid:
  "map_option (map erase_id) (create_chunks cs ov u1 tx doc md)
     = map_option (map erase_id) (create_chunks cs ov u2 tx doc md)
   \<and> map_option (map chunk_id) (create_chunks cs ov u tx doc md)
     = map_option (map (id_of doc u)) (create_chunks cs ov u tx doc md)
   \<and> (0 < cs \<and> 0 \<le> ov \<and> ov < cs \<longrightarrow> create_chunks cs ov u tx doc md \<noteq> None)"
  using create_chunks_erase_id create_chunks_ids create_chunks_returns by blast

theorem chunking_deterministic_up_to_uuid_witness:
  "(0::int) < 50 \<and> (0::int) \<le> 5 \<and> (5::int) < 50
   \<and> create_chunks 50 5 uuids_effs refund_policy ''doc'' no_metadata \<noteq> None
   \<and> map_option (map erase_id) (create_chunks 50 5 uuids_zeros refund_policy ''doc'' no_metadata)
     = map_option (map erase_id) (create_chunks 50 5 uuids_effs refund_policy ''doc'' no_metadata)"
  using chunking_deterministic_up_to_uuid
    [where cs = 50 and ov = 5 and u = uuids_effs and tx = refund_policy and doc = "''doc''"
       and md = no_metadata and ?u1.0 = uuids_zeros and ?u2.0 = uuids_effs]
  by simp

end
